theory Spec2Isabelle
  imports Main
begin

section \<open>Vocabulary shared by the channel implementations\<close>

text \<open>
  The repository holds the dispatch core \<open>ChannelImpl\<close> in several revisions.  The file
  \<open>async/internal/channelimpl.h\<close> carries two of them: the current one, with the staging
  lists \<open>pendingToAdd\<close> and \<open>pendingToRemove\<close>, and an earlier one with the flag
  \<open>receiversIteration\<close> and the pair \<open>disconnectReceiver\<close>/\<open>disableReceiver\<close>, which is the
  one the facade \<open>async/channel.h\<close> and \<open>async/promise.h\<close> are written against.  Both are
  embedded below, each over the same vocabulary.

  A running thread is a number; \<open>std::thread::id\<close> also has the default-constructed value
  that names no thread.  An \<open>Asyncable*\<close> is a number too, with \<open>nullptr\<close> the \<open>None\<close> of
  an option.  A \<open>Receiver*\<close> is an address into an explicit heap, because the receiver
  lists and both staging lists hold pointers to the same records and the code mutates
  records through them.
\<close>

type_synonym thread = nat
datatype thread_id = NoThread | Thread thread
type_synonym asyncable = nat
type_synonym addr = nat
type_synonym args = "int list"

datatype Mode = SetOnce | AsyncSet
datatype SendMode = Auto | Queue

text \<open>
  \<open>assert\<close> aborts the process in a debug build and is compiled out under \<open>NDEBUG\<close>.
  Every function that contains an assertion takes the build and returns the failed
  assertion as an error value.
\<close>

datatype build = Debug | Release

datatype error =
    AssertCallbackAlreadySet
  | AssertPendingNotFound
  | AssertCountNegative
  | AssertWrongThread
  | ThreadPoolExhausted
  | QueueOverflow
  | DanglingReceiver

text \<open>
  A callback is a \<open>std::function\<close>.  What matters to the channel is that it was invoked,
  with which arguments, and which calls it makes back into the channel while it runs.
  A callback is therefore an identifier together with the sequence of channel calls its
  body performs; bodies that send on the same channel are outside this model.
\<close>

datatype callback = Callback (cb_id: nat) (cb_body: "action list")
  and action = DoOnReceive "asyncable option" callback Mode | DoDisconnect asyncable

text \<open>
  The two closures the source stores in \<open>CallMsg::func\<close>: the delivery thunk of
  \<open>sendAuto\<close>/\<open>sendQueue\<close>, which captures the arguments, and the self-disconnect thunk of
  \<open>disconnect\<close>, which captures the subscriber.
\<close>

datatype CallMsg = CallArgs args | SelfDisconnect asyncable

record Receiver =
  enabled :: bool
  receiver :: "asyncable option"
  callback :: callback

record QueueData =
  receiveTh :: thread_id
  queue :: "CallMsg list"

definition bindE :: "error + 'a \<Rightarrow> ('a \<Rightarrow> error + 'b) \<Rightarrow> error + 'b" where
  "bindE m f = (case m of Inl e \<Rightarrow> Inl e | Inr x \<Rightarrow> f x)"

subsection \<open>The subscriber side: \<open>Asyncable\<close>\<close>

text \<open>
  Modelled from the spec: \<open>asyncable.h\<close> is not among the sources.  The spec (4.3) gives
  \<open>async_connect\<close> (register a back-link, recording the current thread as the registration
  thread of that connection), \<open>async_disconnect\<close> (remove the back-link) and
  \<open>async_connectThread\<close> (the registration thread of an existing connection).  The table
  below holds the entries of all subscribers for the one channel under study, at most one
  per subscriber.  For a subscriber without an entry \<open>async_connectThread\<close> is taken to
  return the default \<open>std::thread::id\<close>, which equals no running thread.
\<close>

type_synonym connections = "(asyncable \<times> thread) list"

definition async_disconnect :: "asyncable \<Rightarrow> connections \<Rightarrow> connections" where
  "async_disconnect a cs = filter (\<lambda>p. fst p \<noteq> a) cs"

definition async_connect :: "asyncable \<Rightarrow> thread \<Rightarrow> connections \<Rightarrow> connections" where
  "async_connect a th cs = async_disconnect a cs @ [(a, th)]"

definition async_connectThread :: "connections \<Rightarrow> asyncable \<Rightarrow> thread_id" where
  "async_connectThread cs a = (case map_of cs a of None \<Rightarrow> NoThread | Some th \<Rightarrow> Thread th)"

section \<open>The current \<open>ChannelImpl\<close>\<close>

record ThreadData =
  threadId :: thread
  queues :: "QueueData list"
  receivers :: "addr list"
  pendingToAdd :: "addr list"
  pendingToRemove :: "addr list"

text \<open>
  \<open>m_threads\<close> is a vector of \<open>max_threads\<close> slots filled from the front, so the model keeps
  the filled slots only.  The heap of receiver records, the subscribers' connection
  table and the log of callback invocations (record address, callback identifier,
  arguments) are the parts of the world around the object that its methods read and
  write.  \<open>queue_capacity\<close> is \<open>conf::QUEUE_CAPACITY\<close>, a constant of the absent \<open>conf.h\<close>.
\<close>

record ChannelImpl =
  m_threads :: "ThreadData list"
  max_threads :: nat
  m_enabledReceiversCount :: int
  heap :: "Receiver option list"
  connects :: connections
  calls :: "(addr \<times> nat \<times> args) list"
  queue_capacity :: nat

definition new_ChannelImpl :: "nat \<Rightarrow> nat \<Rightarrow> ChannelImpl" where
  "new_ChannelImpl n cap =
     \<lparr>m_threads = [], max_threads = n, m_enabledReceiversCount = 0, heap = [],
      connects = [], calls = [], queue_capacity = cap\<rparr>"

definition rec_at :: "Receiver option list \<Rightarrow> addr \<Rightarrow> Receiver option" where
  "rec_at h r = (if r < length h then h ! r else None)"

definition upd_thread :: "nat \<Rightarrow> (ThreadData \<Rightarrow> ThreadData) \<Rightarrow> ChannelImpl \<Rightarrow> ChannelImpl" where
  "upd_thread i f c = c\<lparr>m_threads := (m_threads c)[i := f (m_threads c ! i)]\<rparr>"

fun find_slot :: "thread \<Rightarrow> ThreadData list \<Rightarrow> nat option" where
  "find_slot th [] = None"
| "find_slot th (t # ts) =
     (if threadId t = th then Some 0 else map_option Suc (find_slot th ts))"

text \<open>
  \<open>threadData\<close> returns a reference to the slot of the thread, taking the first empty slot
  when the thread has none.  The model returns the slot's index.  With every slot taken
  the debug build asserts; the release build goes on with a function-local static dummy
  shared by every channel of the same type, which this model does not follow: both builds
  stop with \<open>ThreadPoolExhausted\<close>.
\<close>

definition threadData :: "thread \<Rightarrow> ChannelImpl \<Rightarrow> error + (nat \<times> ChannelImpl)" where
  "threadData thId c =
     (case find_slot thId (m_threads c) of
        Some i \<Rightarrow> Inr (i, c)
      | None \<Rightarrow>
          if length (m_threads c) < max_threads c
          then Inr (length (m_threads c),
                 c\<lparr>m_threads := m_threads c @
                    [\<lparr>threadId = thId, queues = [], receivers = [], pendingToAdd = [],
                      pendingToRemove = []\<rparr>]\<rparr>)
          else Inl ThreadPoolExhausted)"

text \<open>
  \<open>std::find_if\<close> over a vector of record pointers, comparing the subscriber field.  A
  dangling address, which no list of a well-formed table holds, matches nothing.
\<close>

definition findByAsyncable :: "Receiver option list \<Rightarrow> addr list \<Rightarrow> asyncable option \<Rightarrow> addr option" where
  "findByAsyncable h recs a =
     find (\<lambda>r. case rec_at h r of None \<Rightarrow> False | Some rc \<Rightarrow> receiver rc = a) recs"

definition addReceiver ::
  "build \<Rightarrow> thread \<Rightarrow> nat \<Rightarrow> asyncable option \<Rightarrow> callback \<Rightarrow> Mode \<Rightarrow> ChannelImpl
     \<Rightarrow> error + (bool \<times> ChannelImpl)" where
  "addReceiver b th i rcv f mode c =
     (let t = m_threads c ! i;
          found =
            (case rcv of
               None \<Rightarrow> None
             | Some a \<Rightarrow>
                 (case findByAsyncable (heap c) (receivers t) rcv of
                    Some r \<Rightarrow> Some r
                  | None \<Rightarrow> findByAsyncable (heap c) (pendingToAdd t) rcv))
      in case found of
           Some r \<Rightarrow>
             if mode = SetOnce
             then (if b = Debug then Inl AssertCallbackAlreadySet else Inr (False, c))
             else (case rec_at (heap c) r of
                     None \<Rightarrow> Inl DanglingReceiver
                   | Some rc \<Rightarrow> Inr (False, c\<lparr>heap := (heap c)[r := Some (rc\<lparr>callback := f\<rparr>)]\<rparr>))
         | None \<Rightarrow>
             (let r = length (heap c);
                  c1 = c\<lparr>heap := heap c @ [Some \<lparr>enabled = True, receiver = rcv, callback = f\<rparr>]\<rparr>;
                  c2 = (case rcv of
                          None \<Rightarrow> c1
                        | Some a \<Rightarrow> c1\<lparr>connects := async_connect a th (connects c1)\<rparr>)
              in Inr (True, upd_thread i (\<lambda>t. t\<lparr>pendingToAdd := pendingToAdd t @ [r]\<rparr>) c2)))"

definition removeReceiver :: "nat \<Rightarrow> asyncable \<Rightarrow> ChannelImpl \<Rightarrow> bool \<times> ChannelImpl" where
  "removeReceiver i a c =
     (let t = m_threads c ! i;
          found =
            (case findByAsyncable (heap c) (receivers t) (Some a) of
               Some r \<Rightarrow> Some r
             | None \<Rightarrow> findByAsyncable (heap c) (pendingToAdd t) (Some a))
      in case found of
           None \<Rightarrow> (False, c)
         | Some r \<Rightarrow>
             (case rec_at (heap c) r of
                None \<Rightarrow> (False, c)
              | Some rc \<Rightarrow>
                  if enabled rc
                  then (True,
                    upd_thread i (\<lambda>t. t\<lparr>pendingToRemove := pendingToRemove t @ [r]\<rparr>)
                      (c\<lparr>heap := (heap c)[r := Some (rc\<lparr>enabled := False, receiver := None\<rparr>)]\<rparr>))
                  else (False, c)))"

definition addPending :: "nat \<Rightarrow> ChannelImpl \<Rightarrow> ChannelImpl" where
  "addPending i c =
     (if pendingToAdd (m_threads c ! i) = [] then c
      else upd_thread i (\<lambda>t. t\<lparr>receivers := receivers t @ pendingToAdd t, pendingToAdd := []\<rparr>) c)"

text \<open>
  The loop of \<open>removePending\<close>: \<open>std::find\<close> by pointer, the assertion that the record is in
  the list, and, when it is, \<open>delete\<close> and \<open>erase\<close> of that one position.
\<close>

fun removePending_loop ::
  "build \<Rightarrow> addr list \<Rightarrow> addr list \<times> Receiver option list
     \<Rightarrow> error + (addr list \<times> Receiver option list)" where
  "removePending_loop b [] (recvs, h) = Inr (recvs, h)"
| "removePending_loop b (r # rs) (recvs, h) =
     (if r \<in> set recvs then removePending_loop b rs (remove1 r recvs, h[r := None])
      else if b = Debug then Inl AssertPendingNotFound
      else removePending_loop b rs (recvs, h))"

definition removePending :: "build \<Rightarrow> nat \<Rightarrow> ChannelImpl \<Rightarrow> error + ChannelImpl" where
  "removePending b i c =
     (let t = m_threads c ! i in
      if pendingToRemove t = [] then Inr c
      else
        (case removePending_loop b (pendingToRemove t) (receivers t, heap c) of
           Inl e \<Rightarrow> Inl e
         | Inr (recvs, h) \<Rightarrow>
             Inr (upd_thread i (\<lambda>t. t\<lparr>receivers := recvs, pendingToRemove := []\<rparr>) (c\<lparr>heap := h\<rparr>))))"

subsection \<open>Outbound queues\<close>

text \<open>
  Modelled from the spec: \<open>queuepool.h\<close> (\<open>Queue\<close>, \<open>Port\<close>, \<open>CallMsg\<close>) is not among the
  sources.  By the spec (4.1) a queue is a bounded FIFO of messages, a send that finds it
  full aborts the process, and \<open>process\<close> on the receive port hands every message present
  to the installed handler.  A queue is a list with the oldest message first.  Which ports
  a call of \<open>processEvents\<close> runs is decided by the \<open>QueuePool\<close>, which is embedded in a
  section of its own below.
\<close>

fun find_queue :: "thread_id \<Rightarrow> QueueData list \<Rightarrow> nat option" where
  "find_queue th [] = None"
| "find_queue th (q # qs) =
     (if receiveTh q = th then Some 0 else map_option Suc (find_queue th qs))"

definition sendToQueue ::
  "build \<Rightarrow> thread \<Rightarrow> nat \<Rightarrow> thread_id \<Rightarrow> CallMsg \<Rightarrow> ChannelImpl \<Rightarrow> error + ChannelImpl" where
  "sendToQueue b th i rcvTh msg c =
     (let t = m_threads c ! i in
      if b = Debug \<and> threadId t \<noteq> th then Inl AssertWrongThread
      else
        (let qs = queues t;
             k = (case find_queue rcvTh qs of Some k \<Rightarrow> k | None \<Rightarrow> length qs);
             qs1 = (case find_queue rcvTh qs of
                      Some k \<Rightarrow> qs
                    | None \<Rightarrow> qs @ [\<lparr>receiveTh = rcvTh, queue = []\<rparr>])
         in if length (queue (qs1 ! k)) < queue_capacity c
            then Inr (upd_thread i
                   (\<lambda>t. t\<lparr>queues := qs1[k := (qs1 ! k)\<lparr>queue := queue (qs1 ! k) @ [msg]\<rparr>]\<rparr>) c)
            else Inl QueueOverflow))"

subsection \<open>The public operations\<close>

definition isConnected :: "ChannelImpl \<Rightarrow> bool" where
  "isConnected c = (m_enabledReceiversCount c > 0)"

definition onReceive ::
  "build \<Rightarrow> thread \<Rightarrow> asyncable option \<Rightarrow> callback \<Rightarrow> Mode \<Rightarrow> ChannelImpl \<Rightarrow> error + ChannelImpl" where
  "onReceive b th rcv f mode c =
     (case threadData th c of
        Inl e \<Rightarrow> Inl e
      | Inr (i, c1) \<Rightarrow>
          (case addReceiver b th i rcv f mode c1 of
             Inl e \<Rightarrow> Inl e
           | Inr (needIncrement, c2) \<Rightarrow>
               Inr (if needIncrement
                    then c2\<lparr>m_enabledReceiversCount := m_enabledReceiversCount c2 + 1\<rparr>
                    else c2)))"

text \<open>
  The closure \<open>removeReceiver\<close> built inside \<open>disconnect\<close>.  It reads the current thread when
  it runs, so inside a self-disconnect message it works on the table of the thread that
  drains the queue.
\<close>

definition disconnect_removeReceiver ::
  "build \<Rightarrow> thread \<Rightarrow> asyncable \<Rightarrow> ChannelImpl \<Rightarrow> error + ChannelImpl" where
  "disconnect_removeReceiver b th a c =
     (case threadData th c of
        Inl e \<Rightarrow> Inl e
      | Inr (i, c1) \<Rightarrow>
          (case removeReceiver i a c1 of
             (needDecrement, c2) \<Rightarrow>
               if needDecrement
               then (let c3 = c2\<lparr>m_enabledReceiversCount := m_enabledReceiversCount c2 - 1\<rparr>
                     in if b = Debug \<and> m_enabledReceiversCount c3 < 0
                        then Inl AssertCountNegative else Inr c3)
               else Inr c2))"

text \<open>The overload \<open>disconnect(a, connectThId)\<close>.\<close>

definition disconnect2 ::
  "build \<Rightarrow> thread \<Rightarrow> asyncable \<Rightarrow> thread_id \<Rightarrow> ChannelImpl \<Rightarrow> error + ChannelImpl" where
  "disconnect2 b th a connectThId c =
     (let c1 = c\<lparr>connects := async_disconnect a (connects c)\<rparr> in
      if connectThId = Thread th then disconnect_removeReceiver b th a c1
      else
        (case threadData th c1 of
           Inl e \<Rightarrow> Inl e
         | Inr (i, c2) \<Rightarrow> sendToQueue b th i connectThId (SelfDisconnect a) c2))"

definition disconnect :: "build \<Rightarrow> thread \<Rightarrow> asyncable \<Rightarrow> ChannelImpl \<Rightarrow> error + ChannelImpl" where
  "disconnect b th a c = disconnect2 b th a (async_connectThread (connects c) a) c"

definition disconnectAsyncable ::
  "build \<Rightarrow> thread \<Rightarrow> asyncable \<Rightarrow> thread_id \<Rightarrow> ChannelImpl \<Rightarrow> error + ChannelImpl" where
  "disconnectAsyncable b th a connectThId c = disconnect2 b th a connectThId c"

subsection \<open>Running callbacks and the dispatch pass\<close>

fun run_actions :: "build \<Rightarrow> thread \<Rightarrow> action list \<Rightarrow> ChannelImpl \<Rightarrow> error + ChannelImpl" where
  "run_actions b th [] c = Inr c"
| "run_actions b th (DoOnReceive rcv f mode # acts) c =
     (case onReceive b th rcv f mode c of
        Inl e \<Rightarrow> Inl e
      | Inr c' \<Rightarrow> run_actions b th acts c')"
| "run_actions b th (DoDisconnect a # acts) c =
     (case disconnect b th a c of
        Inl e \<Rightarrow> Inl e
      | Inr c' \<Rightarrow> run_actions b th acts c')"

text \<open>\<open>r->callback(args ...)\<close> for the record \<open>rc\<close> read at address \<open>r\<close>.\<close>

definition invoke ::
  "build \<Rightarrow> thread \<Rightarrow> args \<Rightarrow> addr \<Rightarrow> Receiver \<Rightarrow> ChannelImpl \<Rightarrow> error + ChannelImpl" where
  "invoke b th as r rc c =
     run_actions b th (cb_body (callback rc))
       (c\<lparr>calls := calls c @ [(r, cb_id (callback rc), as)]\<rparr>)"

text \<open>\<open>m.func(r)\<close> for each of the two thunks.\<close>

fun call_func ::
  "build \<Rightarrow> thread \<Rightarrow> CallMsg \<Rightarrow> addr \<Rightarrow> Receiver \<Rightarrow> ChannelImpl \<Rightarrow> error + ChannelImpl" where
  "call_func b th (CallArgs as) r rc c = invoke b th as r rc c"
| "call_func b th (SelfDisconnect a) r rc c =
     (if receiver rc = Some a then disconnect_removeReceiver b th a c else Inr c)"

text \<open>
  The range-for over \<open>receivers\<close>.  Callbacks reach the table only through \<open>addReceiver\<close> and
  \<open>removeReceiver\<close>, which leave the vector itself alone, so the loop walks the addresses it
  started with and reads each record when its turn comes.
\<close>

fun receivers_loop ::
  "(addr \<Rightarrow> Receiver \<Rightarrow> ChannelImpl \<Rightarrow> error + ChannelImpl) \<Rightarrow> addr list \<Rightarrow> ChannelImpl
     \<Rightarrow> error + ChannelImpl" where
  "receivers_loop f [] c = Inr c"
| "receivers_loop f (r # rs) c =
     (case rec_at (heap c) r of
        None \<Rightarrow> Inl DanglingReceiver
      | Some rc \<Rightarrow>
          if enabled rc
          then (case f r rc c of Inl e \<Rightarrow> Inl e | Inr c' \<Rightarrow> receivers_loop f rs c')
          else receivers_loop f rs c)"

definition receiversCall ::
  "build \<Rightarrow> thread \<Rightarrow> nat \<Rightarrow> args \<Rightarrow> ChannelImpl \<Rightarrow> error + ChannelImpl" where
  "receiversCall b th i as c =
     (case removePending b i (addPending i c) of
        Inl e \<Rightarrow> Inl e
      | Inr c1 \<Rightarrow>
          (case receivers_loop (invoke b th as) (receivers (m_threads c1 ! i)) c1 of
             Inl e \<Rightarrow> Inl e
           | Inr c2 \<Rightarrow>
               (case removePending b i c2 of
                  Inl e \<Rightarrow> Inl e
                | Inr c3 \<Rightarrow> Inr (addPending i c3))))"

definition receiversCall_msg ::
  "build \<Rightarrow> thread \<Rightarrow> nat \<Rightarrow> CallMsg \<Rightarrow> ChannelImpl \<Rightarrow> error + ChannelImpl" where
  "receiversCall_msg b th i m c =
     (case removePending b i (addPending i c) of
        Inl e \<Rightarrow> Inl e
      | Inr c1 \<Rightarrow>
          (case receivers_loop (call_func b th m) (receivers (m_threads c1 ! i)) c1 of
             Inl e \<Rightarrow> Inl e
           | Inr c2 \<Rightarrow>
               (case removePending b i c2 of
                  Inl e \<Rightarrow> Inl e
                | Inr c3 \<Rightarrow> Inr (addPending i c3))))"

subsection \<open>Sending and running a receive port\<close>

fun sendAuto_loop ::
  "build \<Rightarrow> thread \<Rightarrow> nat \<Rightarrow> args \<Rightarrow> thread list \<Rightarrow> ChannelImpl \<Rightarrow> error + ChannelImpl" where
  "sendAuto_loop b th i as [] c = Inr c"
| "sendAuto_loop b th i as (t # ts) c =
     (if t = th then sendAuto_loop b th i as ts c
      else (case sendToQueue b th i (Thread t) (CallArgs as) c of
              Inl e \<Rightarrow> Inl e
            | Inr c' \<Rightarrow> sendAuto_loop b th i as ts c'))"

definition sendAuto :: "build \<Rightarrow> thread \<Rightarrow> args \<Rightarrow> ChannelImpl \<Rightarrow> error + ChannelImpl" where
  "sendAuto b th as c =
     (case threadData th c of
        Inl e \<Rightarrow> Inl e
      | Inr (i, c1) \<Rightarrow>
          (case receiversCall b th i as c1 of
             Inl e \<Rightarrow> Inl e
           | Inr c2 \<Rightarrow> sendAuto_loop b th i as (map threadId (m_threads c2)) c2))"

fun sendQueue_loop ::
  "build \<Rightarrow> thread \<Rightarrow> nat \<Rightarrow> args \<Rightarrow> thread list \<Rightarrow> ChannelImpl \<Rightarrow> error + ChannelImpl" where
  "sendQueue_loop b th i as [] c = Inr c"
| "sendQueue_loop b th i as (t # ts) c =
     (case sendToQueue b th i (Thread t) (CallArgs as) c of
        Inl e \<Rightarrow> Inl e
      | Inr c' \<Rightarrow> sendQueue_loop b th i as ts c')"

definition sendQueue :: "build \<Rightarrow> thread \<Rightarrow> args \<Rightarrow> ChannelImpl \<Rightarrow> error + ChannelImpl" where
  "sendQueue b th as c =
     (case threadData th c of
        Inl e \<Rightarrow> Inl e
      | Inr (i, c1) \<Rightarrow> sendQueue_loop b th i as (map threadId (m_threads c1)) c1)"

definition send :: "build \<Rightarrow> thread \<Rightarrow> SendMode \<Rightarrow> args \<Rightarrow> ChannelImpl \<Rightarrow> error + ChannelImpl" where
  "send b th mode as c =
     (if \<not> isConnected c then Inr c
      else (case mode of Auto \<Rightarrow> sendAuto b th as c | Queue \<Rightarrow> sendQueue b th as c))"

text \<open>The handler \<open>sendToQueue\<close> installs on the receive port of every queue it creates.\<close>

definition onMessage :: "build \<Rightarrow> thread \<Rightarrow> CallMsg \<Rightarrow> ChannelImpl \<Rightarrow> error + ChannelImpl" where
  "onMessage b th m c =
     (case threadData th c of
        Inl e \<Rightarrow> Inl e
      | Inr (i, c1) \<Rightarrow> receiversCall_msg b th i m c1)"

fun process_msgs :: "build \<Rightarrow> thread \<Rightarrow> CallMsg list \<Rightarrow> ChannelImpl \<Rightarrow> error + ChannelImpl" where
  "process_msgs b th [] c = Inr c"
| "process_msgs b th (m # ms) c =
     (case onMessage b th m c of Inl e \<Rightarrow> Inl e | Inr c' \<Rightarrow> process_msgs b th ms c')"

definition clear_queue :: "nat \<Rightarrow> nat \<Rightarrow> ChannelImpl \<Rightarrow> ChannelImpl" where
  "clear_queue s k c =
     upd_thread s (\<lambda>t. t\<lparr>queues := (queues t)[k := (queues t ! k)\<lparr>queue := []\<rparr>]\<rparr>) c"

text \<open>
  \<open>Port::process\<close> on the receive port of queue \<open>k\<close> of the table \<open>s\<close>, run by thread \<open>th\<close>:
  every message present is handed to the handler.  Nothing happens unless that queue exists
  and its receive port belongs to \<open>th\<close>.
\<close>

definition process :: "build \<Rightarrow> thread \<Rightarrow> nat \<Rightarrow> nat \<Rightarrow> ChannelImpl \<Rightarrow> error + ChannelImpl" where
  "process b th s k c =
     (if s < length (m_threads c) \<and> k < length (queues (m_threads c ! s))
         \<and> receiveTh (queues (m_threads c ! s) ! k) = Thread th
      then process_msgs b th (queue (queues (m_threads c ! s) ! k)) (clear_queue s k c)
      else Inr c)"

text \<open>
  Modelled from the spec: the destructor of \<open>Asyncable\<close> (4.3) calls \<open>disconnectAsyncable\<close>
  of each connectable in its connection list with the stored registration thread.
\<close>

definition destroy_asyncable :: "build \<Rightarrow> thread \<Rightarrow> asyncable \<Rightarrow> ChannelImpl \<Rightarrow> error + ChannelImpl" where
  "destroy_asyncable b th a c =
     (case map_of (connects c) a of
        None \<Rightarrow> Inr c
      | Some t \<Rightarrow> disconnectAsyncable b th a (Thread t) c)"

subsection \<open>Histories of operations\<close>

datatype operation =
    OnReceive thread "asyncable option" callback Mode
  | Disconnect thread asyncable
  | Send thread SendMode args
  | Process thread nat nat
  | Destroy thread asyncable

fun step :: "build \<Rightarrow> operation \<Rightarrow> ChannelImpl \<Rightarrow> error + ChannelImpl" where
  "step b (OnReceive th rcv f mode) c = onReceive b th rcv f mode c"
| "step b (Disconnect th a) c = disconnect b th a c"
| "step b (Send th mode as) c = send b th mode as c"
| "step b (Process th s k) c = process b th s k c"
| "step b (Destroy th a) c = destroy_asyncable b th a c"

fun steps :: "build \<Rightarrow> operation list \<Rightarrow> ChannelImpl \<Rightarrow> error + ChannelImpl" where
  "steps b [] c = Inr c"
| "steps b (x # xs) c = (case step b x c of Inl e \<Rightarrow> Inl e | Inr c' \<Rightarrow> steps b xs c')"

subsection \<open>States used as concrete inputs\<close>

text \<open>
  Thread 0 has subscribed the subscriber 7 with callback 1 and one dispatch pass has
  moved the record into the receiver list.
\<close>

definition one_subscriber :: ChannelImpl where
  "one_subscriber =
     \<lparr>m_threads =
        [\<lparr>threadId = 0, queues = [], receivers = [0], pendingToAdd = [],
          pendingToRemove = []\<rparr>],
      max_threads = 16, m_enabledReceiversCount = 1,
      heap = [Some \<lparr>enabled = True, receiver = Some 7, callback = Callback 1 []\<rparr>],
      connects = [(7, 0)], calls = [], queue_capacity = 2048\<rparr>"





text \<open>The state \<open>one_subscriber\<close> after thread 1 has disconnected the subscriber 7.\<close>

definition disconnect_posted :: ChannelImpl where
  "disconnect_posted =
     \<lparr>m_threads =
        [\<lparr>threadId = 0, queues = [], receivers = [0], pendingToAdd = [],
          pendingToRemove = []\<rparr>,
         \<lparr>threadId = 1, queues = [\<lparr>receiveTh = Thread 0, queue = [SelfDisconnect 7]\<rparr>],
          receivers = [], pendingToAdd = [], pendingToRemove = []\<rparr>],
      max_threads = 16, m_enabledReceiversCount = 1,
      heap = [Some \<lparr>enabled = True, receiver = Some 7, callback = Callback 1 []\<rparr>],
      connects = [], calls = [], queue_capacity = 2048\<rparr>"



section \<open>The earlier \<open>ChannelImpl\<close>\<close>

text \<open>
  The second revision in \<open>async/internal/channelimpl.h\<close>.  It has no staging lists: a
  thread's table is the vector \<open>receivers\<close> and the flag \<open>receiversIteration\<close>, which is
  set while the vector is being walked.  \<open>disconnectReceiver\<close> erases a record and refuses
  to do so during a walk; \<open>disableReceiver\<close> only clears the \<open>enabled\<close> flag.  The names
  below are those of the source, followed by a prime where the current revision already
  uses them.

  In this revision every record is pointed to from one vector only, so a table holds the
  records themselves and a record is named by its position.  The class is a template
  over the argument types, and its callbacks are closures over the object that embeds the
  channel; the model is polymorphic in the arguments \<open>'a\<close> and in the representation of a
  callback \<open>'f\<close>.  The log \<open>calls'\<close> records the thread, the position, the callback and the
  arguments of every invocation.
\<close>

record 'f Receiver' =
  enabled' :: bool
  receiver' :: "asyncable option"
  callback' :: 'f

record 'a QueueData' =
  receiveTh' :: thread_id
  queue' :: "'a list"

record ('a, 'f) ThreadData' =
  threadId' :: thread
  receiversIteration :: bool
  receivers' :: "'f Receiver' list"
  queues' :: "'a QueueData' list"

record ('a, 'f) ChannelImpl' =
  m_threads' :: "('a, 'f) ThreadData' list"
  max_threads' :: nat
  m_enabledReceiversCount' :: int
  connects' :: connections
  calls' :: "(thread \<times> nat \<times> 'f \<times> 'a) list"
  queue_capacity' :: nat

definition new_ChannelImpl' :: "nat \<Rightarrow> nat \<Rightarrow> ('a, 'f) ChannelImpl'" where
  "new_ChannelImpl' n cap =
     \<lparr>m_threads' = [], max_threads' = n, m_enabledReceiversCount' = 0, connects' = [],
      calls' = [], queue_capacity' = cap\<rparr>"

definition upd_thread' ::
  "nat \<Rightarrow> (('a, 'f) ThreadData' \<Rightarrow> ('a, 'f) ThreadData') \<Rightarrow> ('a, 'f) ChannelImpl'
     \<Rightarrow> ('a, 'f) ChannelImpl'" where
  "upd_thread' i f c = c\<lparr>m_threads' := (m_threads' c)[i := f (m_threads' c ! i)]\<rparr>"

fun find_slot' :: "thread \<Rightarrow> ('a, 'f) ThreadData' list \<Rightarrow> nat option" where
  "find_slot' th [] = None"
| "find_slot' th (t # ts) =
     (if threadId' t = th then Some 0 else map_option Suc (find_slot' th ts))"

text \<open>As in the current revision, both builds stop when every slot is taken.\<close>

definition threadData' ::
  "thread \<Rightarrow> ('a, 'f) ChannelImpl' \<Rightarrow> error + (nat \<times> ('a, 'f) ChannelImpl')" where
  "threadData' thId c =
     (case find_slot' thId (m_threads' c) of
        Some i \<Rightarrow> Inr (i, c)
      | None \<Rightarrow>
          if length (m_threads' c) < max_threads' c
          then Inr (length (m_threads' c),
                 c\<lparr>m_threads' := m_threads' c @
                    [\<lparr>threadId' = thId, receiversIteration = False, receivers' = [],
                      queues' = []\<rparr>]\<rparr>)
          else Inl ThreadPoolExhausted)"

text \<open>\<open>std::find_if\<close> with \<open>a == r->receiver\<close>: the position of the first match.\<close>

fun findReceiver :: "'f Receiver' list \<Rightarrow> asyncable \<Rightarrow> nat option" where
  "findReceiver [] a = None"
| "findReceiver (r # rs) a =
     (if receiver' r = Some a then Some 0 else map_option Suc (findReceiver rs a))"

fun find_queue' :: "thread_id \<Rightarrow> 'a QueueData' list \<Rightarrow> nat option" where
  "find_queue' th [] = None"
| "find_queue' th (q # qs) =
     (if receiveTh' q = th then Some 0 else map_option Suc (find_queue' th qs))"

text \<open>
  The message of this revision always calls \<open>r->callback(args ...)\<close>, so a queue holds the
  arguments.  The queue itself is modelled from the spec, as for the current revision.
\<close>

definition sendToQueue' ::
  "build \<Rightarrow> thread \<Rightarrow> nat \<Rightarrow> thread_id \<Rightarrow> 'a \<Rightarrow> ('a, 'f) ChannelImpl'
     \<Rightarrow> error + ('a, 'f) ChannelImpl'" where
  "sendToQueue' b th i rcvTh msg c =
     (let t = m_threads' c ! i in
      if b = Debug \<and> threadId' t \<noteq> th then Inl AssertWrongThread
      else
        (let qs = queues' t;
             k = (case find_queue' rcvTh qs of Some k \<Rightarrow> k | None \<Rightarrow> length qs);
             qs1 = (case find_queue' rcvTh qs of
                      Some k \<Rightarrow> qs
                    | None \<Rightarrow> qs @ [\<lparr>receiveTh' = rcvTh, queue' = []\<rparr>])
         in if length (queue' (qs1 ! k)) < queue_capacity' c
            then Inr (upd_thread' i
                   (\<lambda>t. t\<lparr>queues' := qs1[k := (qs1 ! k)\<lparr>queue' := queue' (qs1 ! k) @ [msg]\<rparr>]\<rparr>) c)
            else Inl QueueOverflow))"

subsection \<open>Subscribing and unsubscribing\<close>

definition isConnected' :: "('a, 'f) ChannelImpl' \<Rightarrow> bool" where
  "isConnected' c = (0 < m_enabledReceiversCount' c)"

definition onReceive' ::
  "thread \<Rightarrow> asyncable option \<Rightarrow> 'f \<Rightarrow> ('a, 'f) ChannelImpl' \<Rightarrow> error + ('a, 'f) ChannelImpl'" where
  "onReceive' th rcv f c =
     (case threadData' th c of
        Inl e \<Rightarrow> Inl e
      | Inr (i, c1) \<Rightarrow>
          (let c2 = (case rcv of
                       None \<Rightarrow> c1
                     | Some a \<Rightarrow> c1\<lparr>connects' := async_connect a th (connects' c1)\<rparr>);
               c3 = upd_thread' i
                      (\<lambda>t. t\<lparr>receivers' := receivers' t @
                               [\<lparr>enabled' = True, receiver' = rcv, callback' = f\<rparr>]\<rparr>) c2
           in Inr (c3\<lparr>m_enabledReceiversCount' := m_enabledReceiversCount' c3 + 1\<rparr>)))"

text \<open>
  \<open>disconnectReceiver\<close> returns \<open>false\<close> without a change when it is called from another
  thread than the registration thread (after an assertion) or while the table of the
  calling thread is being walked.  Otherwise it erases the first record of the subscriber,
  counting it out only when it is enabled.
\<close>

definition disconnectReceiver ::
  "build \<Rightarrow> thread \<Rightarrow> asyncable \<Rightarrow> thread_id \<Rightarrow> ('a, 'f) ChannelImpl'
     \<Rightarrow> error + (bool \<times> ('a, 'f) ChannelImpl')" where
  "disconnectReceiver b th a connectThId c =
     (if connectThId \<noteq> Thread th
      then (if b = Debug then Inl AssertWrongThread else Inr (False, c))
      else
        (case threadData' th c of
           Inl e \<Rightarrow> Inl e
         | Inr (i, c1) \<Rightarrow>
             if receiversIteration (m_threads' c1 ! i) then Inr (False, c1)
             else
               (case (case findReceiver (receivers' (m_threads' c1 ! i)) a of
                        None \<Rightarrow> Inr c1
                      | Some k \<Rightarrow>
                          (let r = receivers' (m_threads' c1 ! i) ! k;
                               c2 = (if enabled' r
                                     then c1\<lparr>m_enabledReceiversCount' :=
                                               m_enabledReceiversCount' c1 - 1\<rparr>
                                     else c1)
                           in if b = Debug \<and> enabled' r \<and> m_enabledReceiversCount' c2 < 0
                              then Inl AssertCountNegative
                              else Inr (upd_thread' i
                                     (\<lambda>t. t\<lparr>receivers' := take k (receivers' t)
                                                           @ drop (Suc k) (receivers' t)\<rparr>) c2)))
                of
                  Inl e \<Rightarrow> Inl e
                | Inr c3 \<Rightarrow> Inr (True, c3\<lparr>connects' := async_disconnect a (connects' c3)\<rparr>))))"

text \<open>
  \<open>disableReceiver\<close> clears the flag of the first record of the subscriber and decrements
  the count.  It does not look at the flag before, and it leaves the subscriber pointer
  of the record in place.
\<close>

definition disableReceiver ::
  "build \<Rightarrow> thread \<Rightarrow> asyncable \<Rightarrow> thread_id \<Rightarrow> ('a, 'f) ChannelImpl'
     \<Rightarrow> error + ('a, 'f) ChannelImpl'" where
  "disableReceiver b th a connectThId c =
     (if connectThId \<noteq> Thread th
      then (if b = Debug then Inl AssertWrongThread else Inr c)
      else
        (case threadData' th c of
           Inl e \<Rightarrow> Inl e
         | Inr (i, c1) \<Rightarrow>
             (case findReceiver (receivers' (m_threads' c1 ! i)) a of
                None \<Rightarrow> Inr c1
              | Some k \<Rightarrow>
                  (let c2 = upd_thread' i
                              (\<lambda>t. t\<lparr>receivers' :=
                                       (receivers' t)[k := (receivers' t ! k)\<lparr>enabled' := False\<rparr>]\<rparr>)
                              c1;
                       c3 = c2\<lparr>m_enabledReceiversCount' := m_enabledReceiversCount' c2 - 1\<rparr>
                   in if b = Debug \<and> m_enabledReceiversCount' c3 < 0
                      then Inl AssertCountNegative else Inr c3))))"

definition disconnectAsyncable' ::
  "build \<Rightarrow> thread \<Rightarrow> asyncable \<Rightarrow> thread_id \<Rightarrow> ('a, 'f) ChannelImpl'
     \<Rightarrow> error + ('a, 'f) ChannelImpl'" where
  "disconnectAsyncable' b th a connectThId c =
     (case disconnectReceiver b th a connectThId c of
        Inl e \<Rightarrow> Inl e
      | Inr (ok, c1) \<Rightarrow> if ok then Inr c1 else disableReceiver b th a connectThId c1)"

subsection \<open>Sending and running a receive port\<close>

text \<open>
  A callback runs against the object \<open>w\<close> that embeds the channel.  The dispatching
  functions take the accessors \<open>get\<close> and \<open>put\<close> of the channel inside \<open>w\<close> and the
  function \<open>call\<close> that runs a callback on a thread with the arguments.

  The walk reads \<open>enabled\<close> of each record when its turn comes.  The positions walked are
  those of the vector when the walk starts; bodies that subscribe on the walking thread
  during the walk (a \<open>push_back\<close> into the vector under iteration) are outside this model,
  and a position that no longer exists stops the walk with \<open>DanglingReceiver\<close>.
\<close>

fun receivers_loop' ::
  "('w \<Rightarrow> ('a, 'f) ChannelImpl') \<Rightarrow> (('a, 'f) ChannelImpl' \<Rightarrow> 'w \<Rightarrow> 'w)
     \<Rightarrow> (thread \<Rightarrow> 'f \<Rightarrow> 'a \<Rightarrow> 'w \<Rightarrow> error + 'w)
     \<Rightarrow> thread \<Rightarrow> nat \<Rightarrow> 'a \<Rightarrow> nat list \<Rightarrow> 'w \<Rightarrow> error + 'w" where
  "receivers_loop' get put call th i as [] w = Inr w"
| "receivers_loop' get put call th i as (k # ks) w =
     (let rs = receivers' (m_threads' (get w) ! i) in
      if \<not> k < length rs then Inl DanglingReceiver
      else if enabled' (rs ! k)
      then (case call th (callback' (rs ! k)) as
                   (put ((get w)\<lparr>calls' := calls' (get w) @ [(th, k, callback' (rs ! k), as)]\<rparr>) w) of
              Inl e \<Rightarrow> Inl e
            | Inr w' \<Rightarrow> receivers_loop' get put call th i as ks w')
      else receivers_loop' get put call th i as ks w)"

text \<open>
  The block that \<open>sendAuto\<close> and the queue handler share: set \<open>receiversIteration\<close>, walk the
  vector, clear the flag.
\<close>

definition receivers_iteration ::
  "('w \<Rightarrow> ('a, 'f) ChannelImpl') \<Rightarrow> (('a, 'f) ChannelImpl' \<Rightarrow> 'w \<Rightarrow> 'w)
     \<Rightarrow> (thread \<Rightarrow> 'f \<Rightarrow> 'a \<Rightarrow> 'w \<Rightarrow> error + 'w)
     \<Rightarrow> thread \<Rightarrow> nat \<Rightarrow> 'a \<Rightarrow> 'w \<Rightarrow> error + 'w" where
  "receivers_iteration get put call th i as w =
     (let w1 = put (upd_thread' i (\<lambda>t. t\<lparr>receiversIteration := True\<rparr>) (get w)) w in
      case receivers_loop' get put call th i as
             [0..<length (receivers' (m_threads' (get w1) ! i))] w1 of
        Inl e \<Rightarrow> Inl e
      | Inr w2 \<Rightarrow> Inr (put (upd_thread' i (\<lambda>t. t\<lparr>receiversIteration := False\<rparr>) (get w2)) w2))"

fun sendAuto_loop' ::
  "build \<Rightarrow> thread \<Rightarrow> nat \<Rightarrow> 'a \<Rightarrow> thread list \<Rightarrow> ('a, 'f) ChannelImpl'
     \<Rightarrow> error + ('a, 'f) ChannelImpl'" where
  "sendAuto_loop' b th i as [] c = Inr c"
| "sendAuto_loop' b th i as (t # ts) c =
     (if t = th then sendAuto_loop' b th i as ts c
      else (case sendToQueue' b th i (Thread t) as c of
              Inl e \<Rightarrow> Inl e
            | Inr c' \<Rightarrow> sendAuto_loop' b th i as ts c'))"

definition sendAuto' ::
  "('w \<Rightarrow> ('a, 'f) ChannelImpl') \<Rightarrow> (('a, 'f) ChannelImpl' \<Rightarrow> 'w \<Rightarrow> 'w)
     \<Rightarrow> (thread \<Rightarrow> 'f \<Rightarrow> 'a \<Rightarrow> 'w \<Rightarrow> error + 'w)
     \<Rightarrow> build \<Rightarrow> thread \<Rightarrow> 'a \<Rightarrow> 'w \<Rightarrow> error + 'w" where
  "sendAuto' get put call b th as w =
     (case threadData' th (get w) of
        Inl e \<Rightarrow> Inl e
      | Inr (i, c1) \<Rightarrow>
          (case receivers_iteration get put call th i as (put c1 w) of
             Inl e \<Rightarrow> Inl e
           | Inr w2 \<Rightarrow>
               (case sendAuto_loop' b th i as (map threadId' (m_threads' (get w2))) (get w2) of
                  Inl e \<Rightarrow> Inl e
                | Inr c3 \<Rightarrow> Inr (put c3 w2))))"

fun sendQueue_loop' ::
  "build \<Rightarrow> thread \<Rightarrow> nat \<Rightarrow> 'a \<Rightarrow> thread list \<Rightarrow> ('a, 'f) ChannelImpl'
     \<Rightarrow> error + ('a, 'f) ChannelImpl'" where
  "sendQueue_loop' b th i as [] c = Inr c"
| "sendQueue_loop' b th i as (t # ts) c =
     (case sendToQueue' b th i (Thread t) as c of
        Inl e \<Rightarrow> Inl e
      | Inr c' \<Rightarrow> sendQueue_loop' b th i as ts c')"

definition sendQueue' ::
  "build \<Rightarrow> thread \<Rightarrow> 'a \<Rightarrow> ('a, 'f) ChannelImpl' \<Rightarrow> error + ('a, 'f) ChannelImpl'" where
  "sendQueue' b th as c =
     (case threadData' th c of
        Inl e \<Rightarrow> Inl e
      | Inr (i, c1) \<Rightarrow> sendQueue_loop' b th i as (map threadId' (m_threads' c1)) c1)"

definition send' ::
  "('w \<Rightarrow> ('a, 'f) ChannelImpl') \<Rightarrow> (('a, 'f) ChannelImpl' \<Rightarrow> 'w \<Rightarrow> 'w)
     \<Rightarrow> (thread \<Rightarrow> 'f \<Rightarrow> 'a \<Rightarrow> 'w \<Rightarrow> error + 'w)
     \<Rightarrow> build \<Rightarrow> thread \<Rightarrow> SendMode \<Rightarrow> 'a \<Rightarrow> 'w \<Rightarrow> error + 'w" where
  "send' get put call b th mode as w =
     (if \<not> isConnected' (get w) then Inr w
      else (case mode of
              Auto \<Rightarrow> sendAuto' get put call b th as w
            | Queue \<Rightarrow>
                (case sendQueue' b th as (get w) of
                   Inl e \<Rightarrow> Inl e
                 | Inr c \<Rightarrow> Inr (put c w))))"

text \<open>The handler \<open>sendToQueue\<close> installs on the receive port of every queue it creates.\<close>

definition onMessage' ::
  "('w \<Rightarrow> ('a, 'f) ChannelImpl') \<Rightarrow> (('a, 'f) ChannelImpl' \<Rightarrow> 'w \<Rightarrow> 'w)
     \<Rightarrow> (thread \<Rightarrow> 'f \<Rightarrow> 'a \<Rightarrow> 'w \<Rightarrow> error + 'w)
     \<Rightarrow> thread \<Rightarrow> 'a \<Rightarrow> 'w \<Rightarrow> error + 'w" where
  "onMessage' get put call th as w =
     (case threadData' th (get w) of
        Inl e \<Rightarrow> Inl e
      | Inr (i, c1) \<Rightarrow> receivers_iteration get put call th i as (put c1 w))"

fun process_msgs' ::
  "('w \<Rightarrow> ('a, 'f) ChannelImpl') \<Rightarrow> (('a, 'f) ChannelImpl' \<Rightarrow> 'w \<Rightarrow> 'w)
     \<Rightarrow> (thread \<Rightarrow> 'f \<Rightarrow> 'a \<Rightarrow> 'w \<Rightarrow> error + 'w)
     \<Rightarrow> thread \<Rightarrow> 'a list \<Rightarrow> 'w \<Rightarrow> error + 'w" where
  "process_msgs' get put call th [] w = Inr w"
| "process_msgs' get put call th (m # ms) w =
     (case onMessage' get put call th m w of
        Inl e \<Rightarrow> Inl e
      | Inr w' \<Rightarrow> process_msgs' get put call th ms w')"

definition clear_queue' :: "nat \<Rightarrow> nat \<Rightarrow> ('a, 'f) ChannelImpl' \<Rightarrow> ('a, 'f) ChannelImpl'" where
  "clear_queue' s k c =
     upd_thread' s (\<lambda>t. t\<lparr>queues' := (queues' t)[k := (queues' t ! k)\<lparr>queue' := []\<rparr>]\<rparr>) c"

text \<open>
  \<open>Port::process\<close> on the receive port of queue \<open>k\<close> of the table \<open>s\<close>, run by thread \<open>th\<close>:
  every message present is handed to the handler.  Nothing happens unless that queue exists
  and its receive port belongs to \<open>th\<close>.
\<close>

definition process' ::
  "('w \<Rightarrow> ('a, 'f) ChannelImpl') \<Rightarrow> (('a, 'f) ChannelImpl' \<Rightarrow> 'w \<Rightarrow> 'w)
     \<Rightarrow> (thread \<Rightarrow> 'f \<Rightarrow> 'a \<Rightarrow> 'w \<Rightarrow> error + 'w)
     \<Rightarrow> thread \<Rightarrow> nat \<Rightarrow> nat \<Rightarrow> 'w \<Rightarrow> error + 'w" where
  "process' get put call th s k w =
     (if s < length (m_threads' (get w)) \<and> k < length (queues' (m_threads' (get w) ! s))
         \<and> receiveTh' (queues' (m_threads' (get w) ! s) ! k) = Thread th
      then process_msgs' get put call th (queue' (queues' (m_threads' (get w) ! s) ! k))
             (put (clear_queue' s k (get w)) w)
      else Inr w)"

section \<open>The facade \<open>Channel\<close>\<close>

text \<open>
  \<open>async/channel.h\<close>.  \<open>Channel::Data\<close> holds the main channel and, created on first use,
  the channel \<open>disconnectCh\<close> through which a disconnect that could not erase the record is
  repeated from the pump; \<open>closeCh\<close>, which none of the operations below touches, is left
  out.  \<open>Channel::disconnect\<close> calls \<open>disconnectReceiver\<close> and \<open>disableReceiver\<close>, so it is
  the earlier \<open>ChannelImpl\<close> that is embedded here; \<open>Channel::onReceive\<close> passes a \<open>mode\<close>
  that \<open>onReceive\<close> of that revision does not take, and the model drops it.

  A callback subscribed through the facade is an identifier and the subscribers it
  passes to \<open>resetOnReceive\<close> while it runs, the pattern of the test
  \<open>SingleThread_Send_Reset_onReceive\<close>.  The one callback of \<open>disconnectCh\<close> is the closure
  that calls \<open>disconnect\<close> with the subscriber it receives.
\<close>

datatype handler = Handler (h_id: nat) (h_resets: "asyncable list")

record Channel_Data =
  mainCh :: "(args, handler) ChannelImpl'"
  disconnectCh :: "(asyncable, unit) ChannelImpl' option"

definition new_Channel :: "nat \<Rightarrow> nat \<Rightarrow> Channel_Data" where
  "new_Channel n cap = \<lparr>mainCh = new_ChannelImpl' n cap, disconnectCh = None\<rparr>"

text \<open>
  In \<open>Queue\<close> mode \<open>send\<close> runs no callback, so the runner given for \<open>disconnectCh->send\<close>
  is never applied.  The new \<open>disconnectCh\<close> takes the default size and capacity, as the
  main channel did.
\<close>

definition Channel_disconnect ::
  "build \<Rightarrow> thread \<Rightarrow> asyncable \<Rightarrow> Channel_Data \<Rightarrow> error + Channel_Data" where
  "Channel_disconnect b th a d =
     (let connectThId = async_connectThread (connects' (mainCh d)) a in
      case disconnectReceiver b th a connectThId (mainCh d) of
        Inl e \<Rightarrow> Inl e
      | Inr (ok, m1) \<Rightarrow>
          if ok then Inr (d\<lparr>mainCh := m1\<rparr>)
          else
            (case disableReceiver b th a connectThId m1 of
               Inl e \<Rightarrow> Inl e
             | Inr m2 \<Rightarrow>
                 (case (case disconnectCh d of
                          Some x \<Rightarrow> Inr x
                        | None \<Rightarrow>
                            onReceive' th None ()
                              (new_ChannelImpl' (max_threads' m2) (queue_capacity' m2))) of
                    Inl e \<Rightarrow> Inl e
                  | Inr x \<Rightarrow>
                      (case send' id (\<lambda>c _. c) (\<lambda>_ _ _. Inr) b th Queue a x of
                         Inl e \<Rightarrow> Inl e
                       | Inr x' \<Rightarrow> Inr (d\<lparr>mainCh := m2, disconnectCh := Some x'\<rparr>)))))"

definition Channel_resetOnReceive ::
  "build \<Rightarrow> thread \<Rightarrow> asyncable \<Rightarrow> Channel_Data \<Rightarrow> error + Channel_Data" where
  "Channel_resetOnReceive b th a d = Channel_disconnect b th a d"

fun run_resets :: "build \<Rightarrow> thread \<Rightarrow> asyncable list \<Rightarrow> Channel_Data \<Rightarrow> error + Channel_Data" where
  "run_resets b th [] d = Inr d"
| "run_resets b th (a # as) d =
     (case Channel_resetOnReceive b th a d of
        Inl e \<Rightarrow> Inl e
      | Inr d' \<Rightarrow> run_resets b th as d')"

definition run_handler ::
  "build \<Rightarrow> thread \<Rightarrow> handler \<Rightarrow> args \<Rightarrow> Channel_Data \<Rightarrow> error + Channel_Data" where
  "run_handler b th f as d = run_resets b th (h_resets f) d"

definition Channel_onReceive ::
  "thread \<Rightarrow> asyncable option \<Rightarrow> handler \<Rightarrow> Channel_Data \<Rightarrow> error + Channel_Data" where
  "Channel_onReceive th rcv f d =
     (case onReceive' th rcv f (mainCh d) of
        Inl e \<Rightarrow> Inl e
      | Inr m \<Rightarrow> Inr (d\<lparr>mainCh := m\<rparr>))"

definition Channel_send :: "build \<Rightarrow> thread \<Rightarrow> args \<Rightarrow> Channel_Data \<Rightarrow> error + Channel_Data" where
  "Channel_send b th as d =
     send' mainCh (\<lambda>m d. d\<lparr>mainCh := m\<rparr>) (run_handler b) b th Auto as d"

definition Channel_isConnected :: "Channel_Data \<Rightarrow> bool" where
  "Channel_isConnected d = isConnected' (mainCh d)"

text \<open>
  Thread \<open>th\<close> runs the receive port of one queue of the main channel, and of one queue of
  \<open>disconnectCh\<close>.
\<close>

definition Channel_process ::
  "build \<Rightarrow> thread \<Rightarrow> nat \<Rightarrow> nat \<Rightarrow> Channel_Data \<Rightarrow> error + Channel_Data" where
  "Channel_process b th s k d =
     process' mainCh (\<lambda>m d. d\<lparr>mainCh := m\<rparr>) (run_handler b) th s k d"

definition Channel_process_disconnect ::
  "build \<Rightarrow> thread \<Rightarrow> nat \<Rightarrow> nat \<Rightarrow> Channel_Data \<Rightarrow> error + Channel_Data" where
  "Channel_process_disconnect b th s k d =
     (case disconnectCh d of
        None \<Rightarrow> Inr d
      | Some x \<Rightarrow>
          process' (\<lambda>d. the (disconnectCh d)) (\<lambda>x d. d\<lparr>disconnectCh := Some x\<rparr>)
            (\<lambda>th f a d. Channel_disconnect b th a d) th s k d)"

text \<open>
  Modelled from the spec: the destructor of \<open>Asyncable\<close> (4.3) calls \<open>disconnectAsyncable\<close>
  of each connectable in its connection list with the stored registration thread.
\<close>

definition Channel_destroy_asyncable ::
  "build \<Rightarrow> thread \<Rightarrow> asyncable \<Rightarrow> Channel_Data \<Rightarrow> error + Channel_Data" where
  "Channel_destroy_asyncable b th a d =
     (case map_of (connects' (mainCh d)) a of
        None \<Rightarrow> Inr d
      | Some t \<Rightarrow>
          (case disconnectAsyncable' b th a (Thread t) (mainCh d) of
             Inl e \<Rightarrow> Inl e
           | Inr m \<Rightarrow> Inr (d\<lparr>mainCh := m\<rparr>)))"

datatype Channel_operation =
    ChOnReceive thread "asyncable option" handler
  | ChResetOnReceive thread asyncable
  | ChSend thread args
  | ChProcess thread nat nat
  | ChProcessDisconnect thread nat nat
  | ChDestroy thread asyncable

fun Channel_step :: "build \<Rightarrow> Channel_operation \<Rightarrow> Channel_Data \<Rightarrow> error + Channel_Data" where
  "Channel_step b (ChOnReceive th rcv f) d = Channel_onReceive th rcv f d"
| "Channel_step b (ChResetOnReceive th a) d = Channel_resetOnReceive b th a d"
| "Channel_step b (ChSend th as) d = Channel_send b th as d"
| "Channel_step b (ChProcess th s k) d = Channel_process b th s k d"
| "Channel_step b (ChProcessDisconnect th s k) d = Channel_process_disconnect b th s k d"
| "Channel_step b (ChDestroy th a) d = Channel_destroy_asyncable b th a d"

fun Channel_steps ::
  "build \<Rightarrow> Channel_operation list \<Rightarrow> Channel_Data \<Rightarrow> error + Channel_Data" where
  "Channel_steps b [] d = Inr d"
| "Channel_steps b (x # xs) d =
     (case Channel_step b x d of Inl e \<Rightarrow> Inl e | Inr d' \<Rightarrow> Channel_steps b xs d')"

section \<open>\<open>Promise\<close>\<close>










subsection \<open>States of a promise used as examples\<close>





section \<open>The queue pool\<close>

text \<open>
  \<open>async/internal/queuepool.cpp\<close>.  \<open>sendToQueue\<close> of either \<open>ChannelImpl\<close> registers the
  two ports of a queue it creates with the pool, the send port under the sending thread
  and the receive port under \<open>receiveTh\<close>; \<open>processEvents\<close> on a thread is
  \<open>processMessages\<close> of the pool.  The pool is one object for all channels of the process,
  so it is not a part of a channel's state: its functions are embedded on their own, over
  any type of ports and any way \<open>process_port\<close> of running \<open>Port::process\<close> on the state
  \<open>s\<close> of the objects behind the ports, and \<open>processMessages\<close> takes the pool as it finds
  it.  As for the channels, \<open>m_threads\<close> holds the filled slots only, so \<open>m_count\<close> is its
  length and the two assertions of \<open>processMessages\<close> hold by construction; \<open>MAX_THREADS\<close>
  is a constant of the absent \<open>conf.h\<close>.  \<open>locked\<close> is set and cleared inside \<open>regPort\<close> and
  \<open>unregPort\<close>, so it is false whenever one of these functions has returned.
\<close>

record 'p Pool_ThreadData =
  pool_threadId :: thread_id
  locked :: bool
  ports :: "'p list"

record 'p QueuePool =
  pool_threads :: "'p Pool_ThreadData list"
  MAX_THREADS :: nat

text \<open>
  The loop of \<open>regPort\<close> over the filled slots: the port goes to the first slot that
  belongs to the thread or holds no port, and a slot without ports is handed over to the
  thread.  \<open>None\<close> when the loop reaches the first empty slot.
\<close>

fun regPort_loop ::
  "thread_id \<Rightarrow> 'p \<Rightarrow> 'p Pool_ThreadData list \<Rightarrow> 'p Pool_ThreadData list option" where
  "regPort_loop th port [] = None"
| "regPort_loop th port (t # ts) =
     (if pool_threadId t = th then Some (t\<lparr>ports := ports t @ [port]\<rparr> # ts)
      else if ports t = [] then Some (t\<lparr>pool_threadId := th, ports := [port]\<rparr> # ts)
      else map_option ((#) t) (regPort_loop th port ts))"

definition regPort :: "build \<Rightarrow> thread_id \<Rightarrow> 'p \<Rightarrow> 'p QueuePool \<Rightarrow> error + 'p QueuePool" where
  "regPort b th port q =
     (case regPort_loop th port (pool_threads q) of
        Some ts \<Rightarrow> Inr (q\<lparr>pool_threads := ts\<rparr>)
      | None \<Rightarrow>
          if length (pool_threads q) < MAX_THREADS q
          then Inr (q\<lparr>pool_threads := pool_threads q
                        @ [\<lparr>pool_threadId = th, locked = False, ports = [port]\<rparr>]\<rparr>)
          else if b = Debug then Inl ThreadPoolExhausted
          else Inr q)"

definition unregPort :: "thread_id \<Rightarrow> 'p \<Rightarrow> 'p QueuePool \<Rightarrow> 'p QueuePool" where
  "unregPort th port q =
     q\<lparr>pool_threads :=
         map (\<lambda>t. if pool_threadId t = th then t\<lparr>ports := removeAll port (ports t)\<rparr> else t)
           (pool_threads q)\<rparr>"

fun process_ports :: "('p \<Rightarrow> 's \<Rightarrow> error + 's) \<Rightarrow> 'p list \<Rightarrow> 's \<Rightarrow> error + 's" where
  "process_ports process_port [] s = Inr s"
| "process_ports process_port (p # ps) s =
     (case process_port p s of
        Inl e \<Rightarrow> Inl e
      | Inr s' \<Rightarrow> process_ports process_port ps s')"

text \<open>
  \<open>processMessages(th)\<close> runs the ports of the first slot that belongs to the thread, and
  of no other; it does nothing when there is no such slot or the slot is locked.  The ports
  run are those the slot holds when the loop starts.
\<close>

definition processMessages ::
  "('p \<Rightarrow> 's \<Rightarrow> error + 's) \<Rightarrow> thread \<Rightarrow> 'p QueuePool \<Rightarrow> 's \<Rightarrow> error + 's" where
  "processMessages process_port th q s =
     (case find (\<lambda>t. pool_threadId t = Thread th) (pool_threads q) of
        None \<Rightarrow> Inr s
      | Some t \<Rightarrow> if locked t then Inr s else process_ports process_port (ports t) s)"

text \<open>
  The ports a slot can hold, seen from one channel: the send port and the receive port of
  queue \<open>k\<close> of its table \<open>s\<close>, and the ports of other objects.  Nothing is ever sent to a
  send port, and a port of another object does not touch the channel, so running either
  leaves the channel as it is; running a receive port is \<open>process\<close> above.  The receive
  port was registered under \<open>receiveTh\<close>, and a slot changes hands only while it holds no
  port, so the thread that runs it is \<open>receiveTh\<close>.
\<close>

datatype port = SendPort nat nat | ReceivePort nat nat | OtherPort nat

definition port_process :: "build \<Rightarrow> thread \<Rightarrow> port \<Rightarrow> ChannelImpl \<Rightarrow> error + ChannelImpl" where
  "port_process b th p c = (case p of ReceivePort s k \<Rightarrow> process b th s k c | _ \<Rightarrow> Inr c)"


text \<open>The receive ports that \<open>processMessages(th)\<close> runs, as table and queue.\<close>

definition drained :: "thread \<Rightarrow> port QueuePool \<Rightarrow> (nat \<times> nat) list" where
  "drained th q =
     (case find (\<lambda>t. pool_threadId t = Thread th) (pool_threads q) of
        None \<Rightarrow> []
      | Some t \<Rightarrow>
          if locked t then []
          else concat (map (\<lambda>p. case p of ReceivePort s k \<Rightarrow> [(s, k)] | _ \<Rightarrow> []) (ports t)))"

text \<open>Every port of the pool sits in a slot of the thread it was registered under.\<close>

definition registered_under :: "('p \<Rightarrow> thread_id) \<Rightarrow> 'p QueuePool \<Rightarrow> bool" where
  "registered_under reg q =
     list_all (\<lambda>t. list_all (\<lambda>p. reg p = pool_threadId t) (ports t)) (pool_threads q)"

text \<open>
  The pool after the \<open>resolve\<close> of the example above has made its queue: the send port is
  registered under thread 0 and the receive port under thread 1.
\<close>

definition pool_after_resolve :: "port QueuePool" where
  "pool_after_resolve =
     \<lparr>pool_threads =
        [\<lparr>pool_threadId = Thread 0, locked = False, ports = [SendPort 1 0]\<rparr>,
         \<lparr>pool_threadId = Thread 1, locked = False, ports = [ReceivePort 1 0]\<rparr>],
      MAX_THREADS = 100\<rparr>"

section \<open>Predicates on channel states\<close>

text \<open>
  A predicate is stable when the building blocks of the operations keep it.  Every
  operation is a composition of these blocks, so a stable predicate that holds before a
  history of operations holds after it.  The blocks a callback can reach (it cannot
  start or end a dispatch pass, nor pump) are singled out first.
\<close>

definition callback_stable :: "(ChannelImpl \<Rightarrow> bool) \<Rightarrow> bool" where
  "callback_stable P =
     ((\<forall>b th rcv f mode c c'. P c \<longrightarrow> onReceive b th rcv f mode c = Inr c' \<longrightarrow> P c')
    \<and> (\<forall>b th a c c'. P c \<longrightarrow> disconnect_removeReceiver b th a c = Inr c' \<longrightarrow> P c')
    \<and> (\<forall>c a. P c \<longrightarrow> P (c\<lparr>connects := async_disconnect a (connects c)\<rparr>))
    \<and> (\<forall>c r rc as. P c \<longrightarrow> rec_at (heap c) r = Some rc \<longrightarrow> enabled rc
          \<longrightarrow> P (c\<lparr>calls := calls c @ [(r, cb_id (callback rc), as)]\<rparr>))
    \<and> (\<forall>th c i c'. P c \<longrightarrow> threadData th c = Inr (i, c') \<longrightarrow> P c')
    \<and> (\<forall>b th i t m c c'. P c \<longrightarrow> i < length (m_threads c)
          \<longrightarrow> sendToQueue b th i t m c = Inr c' \<longrightarrow> P c'))"


definition stable :: "(ChannelImpl \<Rightarrow> bool) \<Rightarrow> bool" where
  "stable P =
     (callback_stable P
    \<and> (\<forall>i c. P c \<longrightarrow> i < length (m_threads c) \<longrightarrow> P (addPending i c))
    \<and> (\<forall>b i c c'. P c \<longrightarrow> i < length (m_threads c) \<longrightarrow> removePending b i c = Inr c' \<longrightarrow> P c')
    \<and> (\<forall>s k c. P c \<longrightarrow> s < length (m_threads c) \<longrightarrow> P (clear_queue s k c)))"


text \<open>The number of enabled records on the heap.\<close>

definition enabled_records :: "Receiver option list \<Rightarrow> nat" where
  "enabled_records h =
     length (filter (\<lambda>e. case e of None \<Rightarrow> False | Some rc \<Rightarrow> enabled rc) h)"

text \<open>
  The record at \<open>r\<close> is gone or disabled without subscriber, and no invocation logged from
  position \<open>n\<close> on is one of that record.
\<close>

definition never_called_from :: "nat \<Rightarrow> addr \<Rightarrow> ChannelImpl \<Rightarrow> bool" where
  "never_called_from n r c =
     (r < length (heap c)
      \<and> (case heap c ! r of None \<Rightarrow> True | Some rc \<Rightarrow> \<not> enabled rc \<and> receiver rc = None)
      \<and> list_all (\<lambda>e. fst e \<noteq> r) (drop n (calls c)))"

text \<open>
  The state without the queues addressed to no thread.  No thread pumps such a queue, so
  its messages are never delivered.
\<close>

definition observable :: "ChannelImpl \<Rightarrow> ChannelImpl" where
  "observable c =
     c\<lparr>m_threads :=
         map (\<lambda>t. t\<lparr>queues := filter (\<lambda>q. receiveTh q \<noteq> NoThread) (queues t)\<rparr>) (m_threads c)\<rparr>"

text \<open>
  The records of a subscriber in a table: the addresses in the receiver list and in
  \<open>pendingToAdd\<close> whose record points to the subscriber, in the order in which the
  lookups of \<open>addReceiver\<close> and \<open>removeReceiver\<close> meet them.
\<close>

definition records_of :: "ChannelImpl \<Rightarrow> nat \<Rightarrow> asyncable \<Rightarrow> addr list" where
  "records_of c i s =
     filter (\<lambda>x. case rec_at (heap c) x of None \<Rightarrow> False | Some rc \<Rightarrow> receiver rc = Some s)
       (receivers (m_threads c ! i) @ pendingToAdd (m_threads c ! i))"

text \<open>
  What a subscriber does in the scenario of the tie-break rule of section 4.5, followed by
  the end of the pass: the last two statements of \<open>receiversCall\<close>.
\<close>

definition subscribe_disconnect_subscribe ::
  "asyncable \<Rightarrow> callback \<Rightarrow> Mode \<Rightarrow> callback \<Rightarrow> Mode \<Rightarrow> action list" where
  "subscribe_disconnect_subscribe s f1 m1 f2 m2 =
     [DoOnReceive (Some s) f1 m1, DoDisconnect s, DoOnReceive (Some s) f2 m2]"

definition end_of_pass :: "build \<Rightarrow> nat \<Rightarrow> ChannelImpl \<Rightarrow> error + ChannelImpl" where
  "end_of_pass b i c =
     (case removePending b i c of Inl e \<Rightarrow> Inl e | Inr c' \<Rightarrow> Inr (addPending i c'))"

section \<open>The dispatch pass as the specification words it\<close>

text \<open>
  The four steps of section 4.5 of the specification, written from its words and not
  from the code: apply \<open>pendingAdd\<close> (append each record, clear the list); apply
  \<open>pendingRemove\<close> (remove and free each staged record that is in the receiver list, clear
  the list); iterate the receiver vector, calling for each record that is enabled when
  its turn comes; then apply \<open>pendingRemove\<close> and \<open>pendingAdd\<close> once more.
\<close>

definition free_records :: "addr set \<Rightarrow> Receiver option list \<Rightarrow> Receiver option list" where
  "free_records S h = map (\<lambda>k. if k \<in> S then None else h ! k) [0..<length h]"




subsection \<open>Deliveries of the earlier \<open>ChannelImpl\<close>\<close>

text \<open>
  The table of a thread, the invocations one walk of a table makes for a value (one for
  each record that is enabled, in the order of the table), and the states in which no
  value is queued for a thread.
\<close>

definition table_of :: "thread \<Rightarrow> ('a, 'f) ChannelImpl' \<Rightarrow> 'f Receiver' list" where
  "table_of th c =
     (case find_slot' th (m_threads' c) of
        None \<Rightarrow> []
      | Some i \<Rightarrow> receivers' (m_threads' c ! i))"


definition nothing_in_flight :: "thread \<Rightarrow> ('a, 'f) ChannelImpl' \<Rightarrow> bool" where
  "nothing_in_flight th c =
     list_all (\<lambda>t. list_all (\<lambda>q. receiveTh' q = Thread th \<longrightarrow> queue' q = []) (queues' t))
       (m_threads' c)"



text \<open>
  The values that running the receive port of queue \<open>k\<close> of the table \<open>s\<close> on thread \<open>th\<close> hands
  to the handler.
\<close>

definition queued :: "thread \<Rightarrow> nat \<Rightarrow> nat \<Rightarrow> ('a, 'f) ChannelImpl' \<Rightarrow> 'a list" where
  "queued th s k c =
     (if s < length (m_threads' c) \<and> k < length (queues' (m_threads' c ! s))
         \<and> receiveTh' (queues' (m_threads' c ! s) ! k) = Thread th
      then queue' (queues' (m_threads' c ! s) ! k) else [])"


subsection \<open>Well-formed tables\<close>

text \<open>
  What the operations keep true of the tables of the current \<open>ChannelImpl\<close>: every address
  in a list of a table is an address of the heap; a table holds at most one record that
  points to a given subscriber, because \<open>addReceiver\<close> looks the subscriber up before it
  makes a record; and the registration thread of every connection has a table.
\<close>

definition well_formed :: "ChannelImpl \<Rightarrow> bool" where
  "well_formed c =
     ((\<forall>j < length (m_threads c).
         (\<forall>x \<in> set (receivers (m_threads c ! j) @ pendingToAdd (m_threads c ! j)
                       @ pendingToRemove (m_threads c ! j)). x < length (heap c))
         \<and> (\<forall>s. length (records_of c j s) \<le> 1))
      \<and> (\<forall>a th. map_of (connects c) a = Some th \<longrightarrow> find_slot th (m_threads c) \<noteq> None))"

text \<open>No table holds a record that points to the subscriber, and it has no connection.\<close>

definition unsubscribed :: "asyncable \<Rightarrow> ChannelImpl \<Rightarrow> bool" where
  "unsubscribed a c =
     ((\<forall>j < length (m_threads c). records_of c j a = []) \<and> map_of (connects c) a = None)"

section \<open>Building blocks of the proofs\<close>

subsection \<open>Slots and the number of tables\<close>


lemma upd_thread_simps [simp]:
  "m_threads (upd_thread i f c) = (m_threads c)[i := f (m_threads c ! i)]"
  "heap (upd_thread i f c) = heap c"
  "m_enabledReceiversCount (upd_thread i f c) = m_enabledReceiversCount c"
  "connects (upd_thread i f c) = connects c"
  "calls (upd_thread i f c) = calls c"
  "max_threads (upd_thread i f c) = max_threads c"
  "queue_capacity (upd_thread i f c) = queue_capacity c"
  by (simp_all add: upd_thread_def)

lemma find_slot_Some: "find_slot th ts = Some i \<Longrightarrow> i < length ts \<and> threadId (ts ! i) = th"
  by (induction ts arbitrary: i) (auto split: if_splits)

lemma find_slot_None: "find_slot th ts = None \<Longrightarrow> th \<notin> threadId ` set ts"
  by (induction ts) (auto split: if_splits)

lemma threadData_Inr:
  assumes "threadData th c = Inr (i, c')"
  shows "i < length (m_threads c')" "threadId (m_threads c' ! i) = th"
    "heap c' = heap c" "m_enabledReceiversCount c' = m_enabledReceiversCount c"
    "connects c' = connects c" "calls c' = calls c" "max_threads c' = max_threads c"
    "queue_capacity c' = queue_capacity c"
    "length (m_threads c) \<le> length (m_threads c')"
  using assms
  by (auto simp: threadData_def nth_append split: option.splits if_splits dest: find_slot_Some)

lemma threadData_cases:
  assumes "threadData th c = Inr (i, c')"
  shows "(find_slot th (m_threads c) = Some i \<and> c' = c)
       \<or> (find_slot th (m_threads c) = None \<and> i = length (m_threads c) \<and> length (m_threads c) < max_threads c
          \<and> c' = c\<lparr>m_threads := m_threads c @ [\<lparr>threadId = th, queues = [], receivers = [], pendingToAdd = [], pendingToRemove = []\<rparr>]\<rparr>)"
  using assms by (auto simp: threadData_def split: option.splits if_splits)

lemma addReceiver_len: "addReceiver b th i rcv f mode c = Inr (n, c') \<Longrightarrow> length (m_threads c') = length (m_threads c)"
  by (auto simp: addReceiver_def Let_def split: option.splits if_splits)

lemma removeReceiver_len: "removeReceiver i a c = (n, c') \<Longrightarrow> length (m_threads c') = length (m_threads c)"
  by (auto simp: removeReceiver_def Let_def split: option.splits if_splits)

lemma addPending_len [simp]: "length (m_threads (addPending i c)) = length (m_threads c)"
  by (simp add: addPending_def)

lemma removePending_len: "removePending b i c = Inr c' \<Longrightarrow> length (m_threads c') = length (m_threads c)"
  by (auto simp: removePending_def Let_def split: if_splits sum.splits)

lemma sendToQueue_len: "sendToQueue b th i t m c = Inr c' \<Longrightarrow> length (m_threads c') = length (m_threads c)"
  by (auto simp: sendToQueue_def Let_def split: if_splits)

lemma onReceive_len: "onReceive b th rcv f mode c = Inr c' \<Longrightarrow> length (m_threads c) \<le> length (m_threads c')"
  by (auto simp: onReceive_def split: sum.splits prod.splits if_splits dest!: threadData_Inr(9) addReceiver_len)

lemma disconnect_removeReceiver_len:
  "disconnect_removeReceiver b th a c = Inr c' \<Longrightarrow> length (m_threads c) \<le> length (m_threads c')"
  by (auto simp: disconnect_removeReceiver_def Let_def split: sum.splits prod.splits if_splits dest!: threadData_Inr(9) removeReceiver_len)

lemma disconnect2_len:
  "disconnect2 b th a t c = Inr c' \<Longrightarrow> length (m_threads c) \<le> length (m_threads c')"
  by (auto simp: disconnect2_def Let_def split: sum.splits prod.splits if_splits
      dest!: threadData_Inr(9) disconnect_removeReceiver_len sendToQueue_len)

lemma disconnect_len:
  "disconnect b th a c = Inr c' \<Longrightarrow> length (m_threads c) \<le> length (m_threads c')"
  by (auto simp: disconnect_def dest: disconnect2_len)

lemma run_actions_len:
  "run_actions b th acts c = Inr c' \<Longrightarrow> length (m_threads c) \<le> length (m_threads c')"
proof (induction b th acts c rule: run_actions.induct)
  case (1 b th c)
  then show ?case by simp
next
  case (2 b th rcv f mode acts c)
  then show ?case by (auto split: sum.splits dest!: onReceive_len)
next
  case (3 b th a acts c)
  then show ?case by (auto split: sum.splits dest!: disconnect_len)
qed

lemma invoke_len:
  "invoke b th as r rc c = Inr c' \<Longrightarrow> length (m_threads c) \<le> length (m_threads c')"
  by (auto simp: invoke_def dest!: run_actions_len)

lemma call_func_len:
  "call_func b th m r rc c = Inr c' \<Longrightarrow> length (m_threads c) \<le> length (m_threads c')"
  by (cases m) (auto dest!: invoke_len disconnect_removeReceiver_len split: if_splits)

lemma receivers_loop_len:
  assumes "\<And>r rc c c'. f r rc c = Inr c' \<Longrightarrow> length (m_threads c) \<le> length (m_threads c')"
  shows "receivers_loop f rs c = Inr c' \<Longrightarrow> length (m_threads c) \<le> length (m_threads c')"
proof (induction rs arbitrary: c)
  case Nil
  then show ?case by simp
next
  case (Cons r rs)
  then show ?case
    by (auto split: option.splits if_splits sum.splits dest!: assms) fastforce
qed

lemma receivers_loop_invoke_len:
  "receivers_loop (invoke b th as) rs c = Inr c' \<Longrightarrow> length (m_threads c) \<le> length (m_threads c')"
  by (erule receivers_loop_len[rotated]) (rule invoke_len)

lemma receivers_loop_call_func_len:
  "receivers_loop (call_func b th m) rs c = Inr c' \<Longrightarrow> length (m_threads c) \<le> length (m_threads c')"
  by (erule receivers_loop_len[rotated]) (rule call_func_len)

lemma receiversCall_len:
  "receiversCall b th i as c = Inr c' \<Longrightarrow> length (m_threads c) \<le> length (m_threads c')"
proof -
  assume r: "receiversCall b th i as c = Inr c'"
  then obtain c1 c2 c3 where
    s1: "removePending b i (addPending i c) = Inr c1"
    and s2: "receivers_loop (invoke b th as) (receivers (m_threads c1 ! i)) c1 = Inr c2"
    and s3: "removePending b i c2 = Inr c3" and s4: "c' = addPending i c3"
    by (auto simp: receiversCall_def split: sum.splits)
  show ?thesis
    using removePending_len[OF s1] receivers_loop_invoke_len[OF s2]
      removePending_len[OF s3] s4 by simp
qed

lemma receiversCall_msg_len:
  "receiversCall_msg b th i m c = Inr c' \<Longrightarrow> length (m_threads c) \<le> length (m_threads c')"
proof -
  assume r: "receiversCall_msg b th i m c = Inr c'"
  then obtain c1 c2 c3 where
    s1: "removePending b i (addPending i c) = Inr c1"
    and s2: "receivers_loop (call_func b th m) (receivers (m_threads c1 ! i)) c1 = Inr c2"
    and s3: "removePending b i c2 = Inr c3" and s4: "c' = addPending i c3"
    by (auto simp: receiversCall_msg_def split: sum.splits)
  show ?thesis
    using removePending_len[OF s1] receivers_loop_call_func_len[OF s2]
      removePending_len[OF s3] s4 by simp
qed

lemmas cstableD =
  callback_stable_def[THEN iffD1, THEN conjunct1, rule_format]
  callback_stable_def[THEN iffD1, THEN conjunct2, THEN conjunct1, rule_format]
  callback_stable_def[THEN iffD1, THEN conjunct2, THEN conjunct2, THEN conjunct1, rule_format]
  callback_stable_def[THEN iffD1, THEN conjunct2, THEN conjunct2, THEN conjunct2, THEN conjunct1,
    rule_format]
  callback_stable_def[THEN iffD1, THEN conjunct2, THEN conjunct2, THEN conjunct2, THEN conjunct2,
    THEN conjunct1, rule_format]
  callback_stable_def[THEN iffD1, THEN conjunct2, THEN conjunct2, THEN conjunct2, THEN conjunct2,
    THEN conjunct2, rule_format]

lemmas stable_cb = stable_def[THEN iffD1, THEN conjunct1]

lemmas stableD =
  cstableD(1)[OF stable_cb]
  cstableD(2)[OF stable_cb]
  cstableD(3)[OF stable_cb]
  cstableD(4)[OF stable_cb]
  cstableD(5)[OF stable_cb]
  cstableD(6)[OF stable_cb]
  stable_def[THEN iffD1, THEN conjunct2, THEN conjunct1, rule_format]
  stable_def[THEN iffD1, THEN conjunct2, THEN conjunct2, THEN conjunct1, rule_format]
  stable_def[THEN iffD1, THEN conjunct2, THEN conjunct2, THEN conjunct2, rule_format]

lemma cstable_disconnect2:
  assumes "callback_stable P" "P c" "disconnect2 b th a t c = Inr c'"
  shows "P c'"
proof -
  let ?c1 = "c\<lparr>connects := async_disconnect a (connects c)\<rparr>"
  have p1: "P ?c1" using assms(1,2) by (rule cstableD(3))
  show ?thesis
  proof (cases "t = Thread th")
    case True
    with assms(3) have "disconnect_removeReceiver b th a ?c1 = Inr c'"
      by (simp add: disconnect2_def Let_def)
    with assms(1) p1 show ?thesis by (rule cstableD(2))
  next
    case False
    with assms(3) obtain i c2 where td: "threadData th ?c1 = Inr (i, c2)"
      and sq: "sendToQueue b th i t (SelfDisconnect a) c2 = Inr c'"
      by (auto simp: disconnect2_def Let_def split: sum.splits)
    from assms(1) p1 td have "P c2" by (rule cstableD(5))
    moreover from td have "i < length (m_threads c2)" by (rule threadData_Inr(1))
    ultimately show ?thesis using sq assms(1) by (blast intro: cstableD(6))
  qed
qed

lemma cstable_disconnect:
  "callback_stable P \<Longrightarrow> P c \<Longrightarrow> disconnect b th a c = Inr c' \<Longrightarrow> P c'"
  unfolding disconnect_def by (rule cstable_disconnect2)

lemma cstable_run_actions:
  "callback_stable P \<Longrightarrow> P c \<Longrightarrow> run_actions b th acts c = Inr c' \<Longrightarrow> P c'"
proof (induction b th acts c rule: run_actions.induct)
  case (1 b th c)
  then show ?case by simp
next
  case (2 b th rcv f mode acts c)
  then show ?case by (auto split: sum.splits dest: cstableD(1))
next
  case (3 b th a acts c)
  then show ?case by (auto split: sum.splits dest: cstable_disconnect)
qed

lemma cstable_invoke:
  assumes "callback_stable P" "P c" "rec_at (heap c) r = Some rc" "enabled rc" "invoke b th as r rc c = Inr c'"
  shows "P c'"
  using assms(5) cstableD(4)[OF assms(1-4)] assms(1)
  by (auto simp: invoke_def dest: cstable_run_actions)

lemma cstable_call_func:
  assumes "callback_stable P" "P c" "rec_at (heap c) r = Some rc" "enabled rc" "call_func b th m r rc c = Inr c'"
  shows "P c'"
proof (cases m)
  case (CallArgs as)
  with assms show ?thesis by (auto dest: cstable_invoke)
next
  case (SelfDisconnect a)
  with assms show ?thesis by (auto split: if_splits dest: cstableD(2))
qed

lemma stable_receivers_loop:
  assumes "\<And>r rc c c'. P c \<Longrightarrow> rec_at (heap c) r = Some rc \<Longrightarrow> enabled rc \<Longrightarrow> f r rc c = Inr c' \<Longrightarrow> P c'"
  shows "P c \<Longrightarrow> receivers_loop f rs c = Inr c' \<Longrightarrow> P c'"
proof (induction rs arbitrary: c)
  case Nil
  then show ?case by simp
next
  case (Cons r rs)
  show ?case
  proof (cases "rec_at (heap c) r")
    case None
    with Cons.prems show ?thesis by simp
  next
    case (Some rc)
    show ?thesis
    proof (cases "enabled rc")
      case True
      with Some Cons.prems obtain c1 where f: "f r rc c = Inr c1" and l: "receivers_loop f rs c1 = Inr c'"
        by (auto split: sum.splits)
      from assms[OF Cons.prems(1) Some True f] have "P c1" .
      then show ?thesis using l by (rule Cons.IH)
    next
      case False
      with Some Cons.prems show ?thesis by (auto intro: Cons.IH)
    qed
  qed
qed

lemma stable_receiversCall:
  assumes st: "stable P" and p: "P c" and i: "i < length (m_threads c)"
    and r: "receiversCall b th i as c = Inr c'"
  shows "P c'"
proof -
  from r obtain c1 c2 c3 where
    s1: "removePending b i (addPending i c) = Inr c1"
    and s2: "receivers_loop (invoke b th as) (receivers (m_threads c1 ! i)) c1 = Inr c2"
    and s3: "removePending b i c2 = Inr c3" and s4: "c' = addPending i c3"
    by (auto simp: receiversCall_def split: sum.splits)
  have p0: "P (addPending i c)" using st p i by (rule stableD(7))
  have p1: "P c1" using st p0 _ s1 by (rule stableD(8)) (simp add: i)
  have l1: "i < length (m_threads c1)" using removePending_len[OF s1] i by simp
  have p2: "P c2" using _ p1 s2
    by (rule stable_receivers_loop) (rule cstable_invoke[OF stable_cb[OF st]])
  have l2: "i < length (m_threads c2)"
    using receivers_loop_invoke_len[OF s2] l1 by simp
  have p3: "P c3" using st p2 l2 s3 by (rule stableD(8))
  have l3: "i < length (m_threads c3)" using removePending_len[OF s3] l2 by simp
  show ?thesis unfolding s4 using st p3 l3 by (rule stableD(7))
qed

lemma stable_receiversCall_msg:
  assumes st: "stable P" and p: "P c" and i: "i < length (m_threads c)"
    and r: "receiversCall_msg b th i m c = Inr c'"
  shows "P c'"
proof -
  from r obtain c1 c2 c3 where
    s1: "removePending b i (addPending i c) = Inr c1"
    and s2: "receivers_loop (call_func b th m) (receivers (m_threads c1 ! i)) c1 = Inr c2"
    and s3: "removePending b i c2 = Inr c3" and s4: "c' = addPending i c3"
    by (auto simp: receiversCall_msg_def split: sum.splits)
  have p0: "P (addPending i c)" using st p i by (rule stableD(7))
  have p1: "P c1" using st p0 _ s1 by (rule stableD(8)) (simp add: i)
  have l1: "i < length (m_threads c1)" using removePending_len[OF s1] i by simp
  have p2: "P c2" using _ p1 s2
    by (rule stable_receivers_loop) (rule cstable_call_func[OF stable_cb[OF st]])
  have l2: "i < length (m_threads c2)"
    using receivers_loop_call_func_len[OF s2] l1 by simp
  have p3: "P c3" using st p2 l2 s3 by (rule stableD(8))
  have l3: "i < length (m_threads c3)" using removePending_len[OF s3] l2 by simp
  show ?thesis unfolding s4 using st p3 l3 by (rule stableD(7))
qed

lemma stable_sendAuto_loop:
  "stable P \<Longrightarrow> P c \<Longrightarrow> i < length (m_threads c) \<Longrightarrow> sendAuto_loop b th i as ts c = Inr c' \<Longrightarrow> P c'"
proof (induction ts arbitrary: c)
  case Nil
  then show ?case by simp
next
  case (Cons t ts)
  show ?case
  proof (cases "t = th")
    case True
    with Cons show ?thesis by simp
  next
    case False
    with Cons.prems obtain c1 where s: "sendToQueue b th i (Thread t) (CallArgs as) c = Inr c1"
      and l: "sendAuto_loop b th i as ts c1 = Inr c'" by (auto split: sum.splits)
    have "P c1" using Cons.prems(1,2,3) s by (rule stableD(6))
    moreover have "i < length (m_threads c1)" using sendToQueue_len[OF s] Cons.prems(3) by simp
    ultimately show ?thesis using Cons.IH Cons.prems(1) l by blast
  qed
qed

lemma stable_sendQueue_loop:
  "stable P \<Longrightarrow> P c \<Longrightarrow> i < length (m_threads c) \<Longrightarrow> sendQueue_loop b th i as ts c = Inr c' \<Longrightarrow> P c'"
proof (induction ts arbitrary: c)
  case Nil
  then show ?case by simp
next
  case (Cons t ts)
  from Cons.prems obtain c1 where s: "sendToQueue b th i (Thread t) (CallArgs as) c = Inr c1"
    and l: "sendQueue_loop b th i as ts c1 = Inr c'" by (auto split: sum.splits)
  have "P c1" using Cons.prems(1,2,3) s by (rule stableD(6))
  moreover have "i < length (m_threads c1)" using sendToQueue_len[OF s] Cons.prems(3) by simp
  ultimately show ?case using Cons.IH Cons.prems(1) l by blast
qed

lemma stable_send:
  assumes st: "stable P" and p: "P c" and s: "send b th mode as c = Inr c'"
  shows "P c'"
proof (cases "isConnected c")
  case False
  with s p show ?thesis by (simp add: send_def)
next
  case True
  show ?thesis
  proof (cases mode)
    case Auto
    with True s obtain i c1 c2 where td: "threadData th c = Inr (i, c1)"
      and rc: "receiversCall b th i as c1 = Inr c2"
      and l: "sendAuto_loop b th i as (map threadId (m_threads c2)) c2 = Inr c'"
      by (auto simp: send_def sendAuto_def split: sum.splits)
    have p1: "P c1" using st p td by (rule stableD(5))
    have i1: "i < length (m_threads c1)" using td by (rule threadData_Inr(1))
    have p2: "P c2" using st p1 i1 rc by (rule stable_receiversCall)
    have i2: "i < length (m_threads c2)" using receiversCall_len[OF rc] i1 by simp
    show ?thesis using st p2 i2 l by (rule stable_sendAuto_loop)
  next
    case Queue
    with True s obtain i c1 where td: "threadData th c = Inr (i, c1)"
      and l: "sendQueue_loop b th i as (map threadId (m_threads c1)) c1 = Inr c'"
      by (auto simp: send_def sendQueue_def split: sum.splits)
    have p1: "P c1" using st p td by (rule stableD(5))
    have i1: "i < length (m_threads c1)" using td by (rule threadData_Inr(1))
    show ?thesis using st p1 i1 l by (rule stable_sendQueue_loop)
  qed
qed

lemma stable_onMessage:
  assumes st: "stable P" and p: "P c" and s: "onMessage b th m c = Inr c'"
  shows "P c'"
proof -
  from s obtain i c1 where td: "threadData th c = Inr (i, c1)"
    and rc: "receiversCall_msg b th i m c1 = Inr c'"
    by (auto simp: onMessage_def split: sum.splits)
  have p1: "P c1" using st p td by (rule stableD(5))
  have i1: "i < length (m_threads c1)" using td by (rule threadData_Inr(1))
  show ?thesis using st p1 i1 rc by (rule stable_receiversCall_msg)
qed

lemma stable_process_msgs:
  "stable P \<Longrightarrow> P c \<Longrightarrow> process_msgs b th ms c = Inr c' \<Longrightarrow> P c'"
  by (induction ms arbitrary: c) (auto split: sum.splits dest: stable_onMessage)

lemma stable_process:
  assumes st: "stable P" and p: "P c" and s: "process b th s k c = Inr c'"
  shows "P c'"
proof (cases "s < length (m_threads c) \<and> k < length (queues (m_threads c ! s))
         \<and> receiveTh (queues (m_threads c ! s) ! k) = Thread th")
  case True
  with s have m: "process_msgs b th (queue (queues (m_threads c ! s) ! k)) (clear_queue s k c) = Inr c'"
    by (simp add: process_def)
  have "P (clear_queue s k c)" using st p True by (blast intro: stableD(9))
  then show ?thesis using st m by (blast intro: stable_process_msgs)
next
  case False
  with s p show ?thesis by (auto simp: process_def)
qed

lemma stable_destroy:
  "stable P \<Longrightarrow> P c \<Longrightarrow> destroy_asyncable b th a c = Inr c' \<Longrightarrow> P c'"
  by (auto simp: destroy_asyncable_def disconnectAsyncable_def split: option.splits
      dest: cstable_disconnect2[OF stable_cb])

lemma stable_step:
  "stable P \<Longrightarrow> P c \<Longrightarrow> step b x c = Inr c' \<Longrightarrow> P c'"
  by (cases x) (auto dest: stableD(1) cstable_disconnect[OF stable_cb] stable_send stable_process stable_destroy)

lemma stable_steps:
  "stable P \<Longrightarrow> P c \<Longrightarrow> steps b xs c = Inr c' \<Longrightarrow> P c'"
  by (induction xs arbitrary: c) (auto split: sum.splits dest: stable_step)

subsection \<open>What each building block does to the heap\<close>


lemma findByAsyncable_Some:
  "findByAsyncable h recs a = Some r \<Longrightarrow> r \<in> set recs \<and> (\<exists>rc. rec_at h r = Some rc \<and> receiver rc = a)"
  by (auto simp: findByAsyncable_def find_Some_iff split: option.splits)

lemma findByAsyncable_None:
  "findByAsyncable h recs a = None \<Longrightarrow> r \<in> set recs \<Longrightarrow> rec_at h r = Some rc \<Longrightarrow> receiver rc \<noteq> a"
  by (auto simp: findByAsyncable_def find_None_iff split: option.splits)

lemma addReceiver_effect:
  assumes "addReceiver b th i rcv f mode c = Inr (n, c')"
  shows "calls c' = calls c \<and> m_enabledReceiversCount c' = m_enabledReceiversCount c \<and>
     ((n \<and> heap c' = heap c @ [Some \<lparr>enabled = True, receiver = rcv, callback = f\<rparr>])
      \<or> (\<not> n \<and> heap c' = heap c)
      \<or> (\<not> n \<and> (\<exists>r rc. rec_at (heap c) r = Some rc \<and> receiver rc = rcv \<and> rcv \<noteq> None
              \<and> heap c' = (heap c)[r := Some (rc\<lparr>callback := f\<rparr>)])))"
  using assms
  by (auto simp: addReceiver_def Let_def split: option.splits if_splits dest!: findByAsyncable_Some)
    blast+

lemma onReceive_effect:
  assumes "onReceive b th rcv f mode c = Inr c'"
  shows "calls c' = calls c \<and>
     ((heap c' = heap c @ [Some \<lparr>enabled = True, receiver = rcv, callback = f\<rparr>]
        \<and> m_enabledReceiversCount c' = m_enabledReceiversCount c + 1)
      \<or> (heap c' = heap c \<and> m_enabledReceiversCount c' = m_enabledReceiversCount c)
      \<or> (\<exists>r rc. rec_at (heap c) r = Some rc \<and> receiver rc = rcv \<and> rcv \<noteq> None
              \<and> heap c' = (heap c)[r := Some (rc\<lparr>callback := f\<rparr>)]
              \<and> m_enabledReceiversCount c' = m_enabledReceiversCount c))"
proof -
  from assms obtain i c1 n c2 where td: "threadData th c = Inr (i, c1)"
    and ar: "addReceiver b th i rcv f mode c1 = Inr (n, c2)"
    and c': "c' = (if n then c2\<lparr>m_enabledReceiversCount := m_enabledReceiversCount c2 + 1\<rparr> else c2)"
    by (auto simp: onReceive_def split: sum.splits prod.splits)
  from threadData_Inr[OF td] addReceiver_effect[OF ar] c' show ?thesis
    by (cases n) auto
qed

lemma removeReceiver_effect:
  assumes "removeReceiver i a c = (n, c')"
  shows "calls c' = calls c \<and> connects c' = connects c
     \<and> m_enabledReceiversCount c' = m_enabledReceiversCount c \<and>
     ((\<not> n \<and> c' = c)
      \<or> (n \<and> (\<exists>r rc. rec_at (heap c) r = Some rc \<and> enabled rc \<and> receiver rc = Some a
              \<and> heap c' = (heap c)[r := Some (rc\<lparr>enabled := False, receiver := None\<rparr>)])))"
  using assms
  by (auto simp: removeReceiver_def Let_def split: option.splits if_splits dest!: findByAsyncable_Some)
    blast+

lemma disconnect_removeReceiver_effect:
  assumes "disconnect_removeReceiver b th a c = Inr c'"
  shows "calls c' = calls c \<and> connects c' = connects c \<and>
     ((heap c' = heap c \<and> m_enabledReceiversCount c' = m_enabledReceiversCount c)
      \<or> (\<exists>r rc. rec_at (heap c) r = Some rc \<and> enabled rc \<and> receiver rc = Some a
              \<and> heap c' = (heap c)[r := Some (rc\<lparr>enabled := False, receiver := None\<rparr>)]
              \<and> m_enabledReceiversCount c' = m_enabledReceiversCount c - 1))"
proof -
  from assms obtain i c1 n c2 where td: "threadData th c = Inr (i, c1)"
    and rr: "removeReceiver i a c1 = (n, c2)"
    and c': "c' = (if n then c2\<lparr>m_enabledReceiversCount := m_enabledReceiversCount c2 - 1\<rparr> else c2)"
    by (auto simp: disconnect_removeReceiver_def Let_def split: sum.splits prod.splits if_splits)
  from threadData_Inr[OF td] removeReceiver_effect[OF rr] c' show ?thesis
    by (cases n) auto
qed

lemma rec_at_update:
  "rec_at (h[r := v]) x = (if x = r \<and> r < length h then v else rec_at h x)"
  by (auto simp: rec_at_def)

lemma rec_at_append:
  "rec_at (h @ [v]) x = (if x = length h then v else rec_at h x)"
  by (auto simp: rec_at_def nth_append)

lemma rec_at_bound: "rec_at h r = Some rc \<Longrightarrow> r < length h"
  by (auto simp: rec_at_def split: if_splits)

lemma removePending_loop_effect:
  "removePending_loop b rs (recvs, h) = Inr (recvs', h') \<Longrightarrow>
     length h' = length h \<and> (\<forall>r. rec_at h' r = rec_at h r \<or> (rec_at h' r = None \<and> r \<in> set rs))"
proof (induction rs arbitrary: recvs h)
  case Nil
  then show ?case by simp
next
  case (Cons r rs)
  show ?case
  proof (cases "r \<in> set recvs")
    case True
    with Cons.prems have "removePending_loop b rs (remove1 r recvs, h[r := None]) = Inr (recvs', h')"
      by simp
    from Cons.IH[OF this] have l: "length h' = length h"
      and e: "\<And>x. rec_at h' x = rec_at (h[r := None]) x \<or> (rec_at h' x = None \<and> x \<in> set rs)"
      by auto
    have "rec_at h' x = rec_at h x \<or> (rec_at h' x = None \<and> x \<in> set (r # rs))" for x
      using e[of x] by (auto simp: rec_at_update split: if_splits)
    with l show ?thesis by blast
  next
    case False
    with Cons.prems have "removePending_loop b rs (recvs, h) = Inr (recvs', h')"
      by (auto split: if_splits)
    from Cons.IH[OF this] show ?thesis by auto
  qed
qed

lemma removePending_effect:
  assumes "removePending b i c = Inr c'"
  shows "calls c' = calls c \<and> connects c' = connects c
     \<and> m_enabledReceiversCount c' = m_enabledReceiversCount c
     \<and> length (heap c') = length (heap c)
     \<and> (\<forall>r. rec_at (heap c') r = rec_at (heap c) r
            \<or> (rec_at (heap c') r = None \<and> r \<in> set (pendingToRemove (m_threads c ! i))))"
  using assms
  by (auto simp: removePending_def Let_def split: if_splits sum.splits prod.splits
      dest!: removePending_loop_effect)

lemma addPending_fields [simp]:
  "heap (addPending i c) = heap c" "calls (addPending i c) = calls c"
  "connects (addPending i c) = connects c"
  "m_enabledReceiversCount (addPending i c) = m_enabledReceiversCount c"
  by (simp_all add: addPending_def)

lemma clear_queue_fields [simp]:
  "length (m_threads (clear_queue s k c)) = length (m_threads c)"
  "heap (clear_queue s k c) = heap c"
  "m_enabledReceiversCount (clear_queue s k c) = m_enabledReceiversCount c"
  "connects (clear_queue s k c) = connects c"
  "calls (clear_queue s k c) = calls c"
  by (simp_all add: clear_queue_def)

lemma sendToQueue_fields:
  assumes "sendToQueue b th i t m c = Inr c'"
  shows "heap c' = heap c" "calls c' = calls c" "connects c' = connects c"
    "m_enabledReceiversCount c' = m_enabledReceiversCount c"
  using assms by (auto simp: sendToQueue_def Let_def split: if_splits)

lemma threadData_fields:
  "threadData th c = Inr (i, c') \<Longrightarrow> heap c' = heap c \<and> calls c' = calls c"
  by (simp add: threadData_Inr)







subsection \<open>Records that are never invoked again\<close>


lemma never_called_from_iff:
  "never_called_from n r c \<longleftrightarrow>
     r < length (heap c)
     \<and> (\<forall>rc. rec_at (heap c) r = Some rc \<longrightarrow> \<not> enabled rc \<and> receiver rc = None)
     \<and> (\<forall>e \<in> set (drop n (calls c)). fst e \<noteq> r)"
  by (auto simp: never_called_from_def rec_at_def list_all_iff split: option.splits)

lemma stable_never_called_from: "stable (never_called_from n r)"
  unfolding stable_def callback_stable_def
proof (intro conjI allI impI)
  fix b th rcv f mode c c'
  assume p: "never_called_from n r c" and o: "onReceive b th rcv f mode c = Inr c'"
  from onReceive_effect[OF o] p show "never_called_from n r c'"
    by (auto simp: never_called_from_iff rec_at_update rec_at_append split: if_splits)
next
  fix b th a c c'
  assume p: "never_called_from n r c" and o: "disconnect_removeReceiver b th a c = Inr c'"
  from disconnect_removeReceiver_effect[OF o] p show "never_called_from n r c'"
    by (auto simp: never_called_from_iff rec_at_update split: if_splits)
next
  fix c a
  assume "never_called_from n r c"
  then show "never_called_from n r (c\<lparr>connects := async_disconnect a (connects c)\<rparr>)"
    by (simp add: never_called_from_def)
next
  fix c r0 rc as
  assume p: "never_called_from n r c" and r: "rec_at (heap c) r0 = Some rc" and e: "enabled rc"
  from p r e have "r0 \<noteq> r" by (auto simp: never_called_from_iff)
  with p show "never_called_from n r (c\<lparr>calls := calls c @ [(r0, cb_id (callback rc), as)]\<rparr>)"
    by (auto simp: never_called_from_iff dest: in_set_dropD)
next
  fix th c i c'
  assume "never_called_from n r c" "threadData th c = Inr (i, c')"
  then show "never_called_from n r c'"
    by (simp add: never_called_from_def threadData_Inr(3,6))
next
  fix b th i t m c c'
  assume "never_called_from n r c" "sendToQueue b th i t m c = Inr c'"
  then show "never_called_from n r c'"
    by (simp add: never_called_from_def sendToQueue_fields(1,2))
next
  fix i c
  assume "never_called_from n r c"
  then show "never_called_from n r (addPending i c)"
    by (simp add: never_called_from_def)
next
  fix b i c c'
  assume p: "never_called_from n r c" and o: "removePending b i c = Inr c'"
  from removePending_effect[OF o] have
    e: "calls c' = calls c" "length (heap c') = length (heap c)"
    "rec_at (heap c') r = rec_at (heap c) r \<or> rec_at (heap c') r = None" by auto
  with p show "never_called_from n r c'"
    by (auto simp: never_called_from_iff)
next
  fix s k c
  assume "never_called_from n r c"
  then show "never_called_from n r (clear_queue s k c)"
    by (simp add: never_called_from_def)
qed

subsection \<open>Lookups, slots and connections\<close>


lemma findByAsyncable_NoneI:
  "(\<And>r rc. r \<in> set recs \<Longrightarrow> rec_at h r = Some rc \<Longrightarrow> receiver rc \<noteq> a)
     \<Longrightarrow> findByAsyncable h recs a = None"
  by (auto simp: findByAsyncable_def find_None_iff split: option.splits)

lemma findByAsyncable_append:
  "findByAsyncable h (xs @ ys) a =
     (case findByAsyncable h xs a of Some r \<Rightarrow> Some r | None \<Rightarrow> findByAsyncable h ys a)"
  by (induction xs) (auto simp: findByAsyncable_def)

lemma find_slot_threadData:
  "threadData th c = Inr (i, c') \<Longrightarrow> find_slot th (m_threads c') = Some i"
proof -
  have app: "find_slot th ts = None \<Longrightarrow> threadId t = th \<Longrightarrow> find_slot th (ts @ [t]) = Some (length ts)"
    for ts t
    by (induction ts) (auto split: if_splits)
  assume "threadData th c = Inr (i, c')"
  from threadData_cases[OF this] show ?thesis by (auto simp: app)
qed

lemma find_slot_update:
  "threadId t' = threadId (ts ! i) \<Longrightarrow> find_slot th (ts[i := t']) = find_slot th ts"
proof (induction ts arbitrary: i)
  case Nil
  then show ?case by simp
next
  case (Cons t ts)
  then show ?case by (cases i) auto
qed

lemma threadData_found:
  "find_slot th (m_threads c) = Some i \<Longrightarrow> threadData th c = Inr (i, c)"
  by (simp add: threadData_def)

lemma map_of_async_disconnect [simp]: "map_of (async_disconnect a cs) a = None"
  by (auto simp: async_disconnect_def map_of_eq_None_iff)

lemma map_of_async_connect [simp]: "map_of (async_connect a th cs) a = Some th"
  by (simp add: async_connect_def map_add_def)

lemma threadData_exists:
  "find_slot th (m_threads c) \<noteq> None \<or> length (m_threads c) < max_threads c
     \<Longrightarrow> \<exists>i c'. threadData th c = Inr (i, c')"
  by (cases "find_slot th (m_threads c)") (auto simp: threadData_def)

lemma async_disconnect_connect:
  "map_of cs a = None \<Longrightarrow> async_disconnect a (async_connect a th cs) = cs"
proof -
  assume "map_of cs a = None"
  then have "filter (\<lambda>p. fst p \<noteq> a) cs = cs"
    by (auto simp: map_of_eq_None_iff filter_id_conv image_iff)
  then show ?thesis by (simp add: async_connect_def async_disconnect_def)
qed


subsection \<open>What \<open>disconnect\<close> leaves behind\<close>


lemma find_queue_Some: "find_queue t qs = Some k \<Longrightarrow> k < length qs \<and> receiveTh (qs ! k) = t"
  by (induction qs arbitrary: k) (auto split: if_splits)




lemma sendToQueue_slots:
  "sendToQueue b th i t m c = Inr c' \<Longrightarrow> find_slot th' (m_threads c') = find_slot th' (m_threads c)"
  by (auto simp: sendToQueue_def Let_def find_slot_update split: if_splits)





lemma observable_fields [simp]:
  "heap (observable c) = heap c" "calls (observable c) = calls c"
  "connects (observable c) = connects c"
  "m_enabledReceiversCount (observable c) = m_enabledReceiversCount c"
  by (simp_all add: observable_def)



subsection \<open>A self-disconnect message on the registration thread\<close>


lemma receivers_loop_append:
  "receivers_loop f (xs @ ys) c =
     (case receivers_loop f xs c of Inl e \<Rightarrow> Inl e | Inr c' \<Rightarrow> receivers_loop f ys c')"
  by (induction xs arbitrary: c) (auto split: option.splits sum.splits)

lemma receivers_loop_id:
  "(\<And>x. x \<in> set xs \<Longrightarrow> \<exists>rcx. rec_at (heap c) x = Some rcx \<and> (enabled rcx \<longrightarrow> f x rcx c = Inr c))
     \<Longrightarrow> receivers_loop f xs c = Inr c"
proof (induction xs)
  case Nil
  then show ?case by simp
next
  case (Cons x xs)
  from Cons.prems[of x] obtain rcx where
    x: "rec_at (heap c) x = Some rcx" "enabled rcx \<longrightarrow> f x rcx c = Inr c" by auto
  have "receivers_loop f xs c = Inr c"
    by (rule Cons.IH) (use Cons.prems in auto)
  with x show ?case by simp
qed

lemma self_disconnect_skip:
  assumes "\<And>x. x \<in> set xs \<Longrightarrow> \<exists>rcx. rec_at (heap c) x = Some rcx \<and> receiver rcx \<noteq> Some a"
  shows "receivers_loop (call_func b th (SelfDisconnect a)) xs c = Inr c"
proof (rule receivers_loop_id)
  fix x assume "x \<in> set xs"
  from assms[OF this] obtain rcx where
    x: "rec_at (heap c) x = Some rcx" "receiver rcx \<noteq> Some a" by auto
  then have "call_func b th (SelfDisconnect a) x rcx c = Inr c" by simp
  with x(1) show "\<exists>rcx. rec_at (heap c) x = Some rcx
      \<and> (enabled rcx \<longrightarrow> call_func b th (SelfDisconnect a) x rcx c = Inr c)" by blast
qed

lemma findByAsyncable_unique:
  assumes "r \<in> set R" "rec_at h r = Some rc" "receiver rc = a"
    and "\<And>x rc'. x \<in> set R \<Longrightarrow> x \<noteq> r \<Longrightarrow> rec_at h x = Some rc' \<Longrightarrow> receiver rc' \<noteq> a"
  shows "findByAsyncable h R a = Some r"
proof (cases "findByAsyncable h R a")
  case None
  from findByAsyncable_None[OF None assms(1,2)] assms(3) show ?thesis by simp
next
  case (Some x)
  from findByAsyncable_Some[OF Some] obtain rc' where
    x: "x \<in> set R" "rec_at h x = Some rc'" "receiver rc' = a" by blast
  with assms(4)[of x rc'] have "x = r" by auto
  with Some show ?thesis by simp
qed

lemma addPending_eq:
  "i < length (m_threads c) \<Longrightarrow>
     addPending i c =
       upd_thread i (\<lambda>t. t\<lparr>receivers := receivers t @ pendingToAdd t, pendingToAdd := []\<rparr>) c"
proof -
  assume i: "i < length (m_threads c)"
  show ?thesis
  proof (cases "pendingToAdd (m_threads c ! i) = []")
    case False
    then show ?thesis by (simp add: addPending_def)
  next
    case True
    let ?t = "m_threads c ! i"
    have "?t\<lparr>receivers := receivers ?t @ pendingToAdd ?t, pendingToAdd := []\<rparr>
            = ?t\<lparr>receivers := receivers ?t, pendingToAdd := pendingToAdd ?t\<rparr>"
      using True by simp
    also have "\<dots> = ?t" by simp
    finally have "(m_threads c)[i := ?t\<lparr>receivers := receivers ?t @ pendingToAdd ?t, pendingToAdd := []\<rparr>]
        = m_threads c" by simp
    with True show ?thesis by (simp add: addPending_def upd_thread_def)
  qed
qed

lemma upd_thread_nth [simp]:
  "i < length (m_threads c) \<Longrightarrow> m_threads (upd_thread i f c) ! i = f (m_threads c ! i)"
  by (simp add: upd_thread_def)

lemma self_disconnect_processed:
  assumes fs: "find_slot reg (m_threads d) = Some j"
    and pr: "pendingToRemove (m_threads d ! j) = []"
    and R: "R = receivers (m_threads d ! j) @ pendingToAdd (m_threads d ! j)"
    and dist: "distinct R"
    and live: "\<And>x. x \<in> set R \<Longrightarrow> rec_at (heap d) x \<noteq> None"
    and r: "r \<in> set R" "rec_at (heap d) r = Some rc" "enabled rc" "receiver rc = Some a"
    and uniq: "\<And>x rc'. x \<in> set R \<Longrightarrow> x \<noteq> r \<Longrightarrow> rec_at (heap d) x = Some rc' \<Longrightarrow> receiver rc' \<noteq> Some a"
    and cnt: "0 < m_enabledReceiversCount d"
  shows "\<exists>d'. onMessage b reg (SelfDisconnect a) d = Inr d'
      \<and> heap d' = (heap d)[r := None]
      \<and> m_enabledReceiversCount d' = m_enabledReceiversCount d - 1
      \<and> receivers (m_threads d' ! j) = remove1 r R
      \<and> pendingToAdd (m_threads d' ! j) = [] \<and> pendingToRemove (m_threads d' ! j) = []
      \<and> calls d' = calls d \<and> connects d' = connects d"
proof -
  from find_slot_Some[OF fs] have j: "j < length (m_threads d)" by simp
  have rb: "r < length (heap d)" using r(2) by (rule rec_at_bound)
  define d1 where "d1 = upd_thread j (\<lambda>t. t\<lparr>receivers := receivers t @ pendingToAdd t, pendingToAdd := []\<rparr>) d"
  have ap: "addPending j d = d1" unfolding d1_def using j by (rule addPending_eq)
  have t1: "receivers (m_threads d1 ! j) = R" "pendingToAdd (m_threads d1 ! j) = []"
    "pendingToRemove (m_threads d1 ! j) = []"
    using j by (simp_all add: d1_def R pr)
  have f1: "heap d1 = heap d" "m_enabledReceiversCount d1 = m_enabledReceiversCount d"
    "calls d1 = calls d" "connects d1 = connects d" "length (m_threads d1) = length (m_threads d)"
    by (simp_all add: d1_def)
  have fs1: "find_slot reg (m_threads d1) = Some j"
    unfolding d1_def using fs by (simp add: find_slot_update)
  have rp1: "removePending b j d1 = Inr d1" by (simp add: removePending_def t1)
  from split_list[OF r(1)] obtain R1 R2 where Rs: "R = R1 @ r # R2" by blast
  with dist have nr: "r \<notin> set R1" "r \<notin> set R2" by auto
  let ?F = "call_func b reg (SelfDisconnect a)"
  have l1: "receivers_loop ?F R1 d1 = Inr d1"
  proof (rule self_disconnect_skip)
    fix x assume x: "x \<in> set R1"
    then have xr: "x \<in> set R" "x \<noteq> r" using Rs nr by auto
    from live[OF xr(1)] obtain rcx where rcx: "rec_at (heap d) x = Some rcx" by auto
    with uniq[OF xr rcx] show "\<exists>rcx. rec_at (heap d1) x = Some rcx \<and> receiver rcx \<noteq> Some a"
      by (simp add: f1)
  qed
  define d2 where "d2 = upd_thread j (\<lambda>t. t\<lparr>pendingToRemove := pendingToRemove t @ [r]\<rparr>)
      (d1\<lparr>heap := (heap d1)[r := Some (rc\<lparr>enabled := False, receiver := None\<rparr>)]\<rparr>)"
  have fnd: "findByAsyncable (heap d1) (receivers (m_threads d1 ! j)) (Some a) = Some r"
    unfolding t1 f1(1) by (rule findByAsyncable_unique[OF r(1,2,4)]) (use uniq in blast)
  have r1: "rec_at (heap d1) r = Some rc" using r(2) by (simp add: f1)
  have rr: "removeReceiver j a d1 = (True, d2)"
    by (simp add: removeReceiver_def Let_def fnd r1 r(3) d2_def)
  define d3 where "d3 = d2\<lparr>m_enabledReceiversCount := m_enabledReceiversCount d2 - 1\<rparr>"
  have c3: "m_enabledReceiversCount d3 = m_enabledReceiversCount d - 1"
    by (simp add: d3_def d2_def f1)
  have dr: "disconnect_removeReceiver b reg a d1 = Inr d3"
    using cnt c3 by (simp add: disconnect_removeReceiver_def threadData_found[OF fs1] rr Let_def d3_def)
  have Fr: "?F r rc d1 = Inr d3" using r(4) dr by simp
  have f3: "heap d3 = (heap d)[r := Some (rc\<lparr>enabled := False, receiver := None\<rparr>)]"
    "calls d3 = calls d" "connects d3 = connects d" "length (m_threads d3) = length (m_threads d)"
    by (simp_all add: d3_def d2_def f1)
  have t3: "receivers (m_threads d3 ! j) = R" "pendingToAdd (m_threads d3 ! j) = []"
    "pendingToRemove (m_threads d3 ! j) = [r]"
    using j by (simp_all add: d3_def d2_def f1 t1)
  have l2: "receivers_loop ?F R2 d3 = Inr d3"
  proof (rule self_disconnect_skip)
    fix x assume x: "x \<in> set R2"
    then have xr: "x \<in> set R" "x \<noteq> r" using Rs nr by auto
    from live[OF xr(1)] obtain rcx where rcx: "rec_at (heap d) x = Some rcx" by auto
    with uniq[OF xr rcx] xr(2) show "\<exists>rcx. rec_at (heap d3) x = Some rcx \<and> receiver rcx \<noteq> Some a"
      by (simp add: f3 rec_at_update)
  qed
  have lr: "receivers_loop ?F (r # R2) d1 = Inr d3"
    using r1 r(3) Fr l2 by (simp del: call_func.simps)
  have loop: "receivers_loop ?F R d1 = Inr d3"
    unfolding Rs receivers_loop_append l1 using lr by simp
  define d4 where "d4 = upd_thread j (\<lambda>t. t\<lparr>receivers := remove1 r R, pendingToRemove := []\<rparr>)
      (d3\<lparr>heap := (heap d3)[r := None]\<rparr>)"
  have rp3: "removePending b j d3 = Inr d4"
    using r(1) by (simp add: removePending_def t3 Let_def d4_def)
  have j4: "j < length (m_threads d4)" using j by (simp add: d4_def f3)
  have t4: "receivers (m_threads d4 ! j) = remove1 r R" "pendingToAdd (m_threads d4 ! j) = []"
    "pendingToRemove (m_threads d4 ! j) = []"
    using j by (simp_all add: d4_def f3 t3)
  have ap4: "addPending j d4 = d4" by (simp add: addPending_def t4)
  have rc: "receiversCall_msg b reg j (SelfDisconnect a) d = Inr d4"
    by (simp add: receiversCall_msg_def ap rp1 t1 loop rp3 ap4 del: call_func.simps)
  have om: "onMessage b reg (SelfDisconnect a) d = Inr d4"
    by (simp add: onMessage_def threadData_found[OF fs] rc)
  have "heap d4 = (heap d)[r := None]" "m_enabledReceiversCount d4 = m_enabledReceiversCount d - 1"
    "calls d4 = calls d" "connects d4 = connects d"
    using c3 by (simp_all add: d4_def f3)
  with om t4 show ?thesis by simp
qed


lemma sendToQueue_shape:
  "sendToQueue b th i t m c = Inr c' \<Longrightarrow> \<exists>qs. c' = upd_thread i (\<lambda>t. t\<lparr>queues := qs\<rparr>) c"
  by (auto simp: sendToQueue_def Let_def split: if_splits)

lemma sendToQueue_tables:
  assumes "sendToQueue b th i t m c = Inr c'"
  shows "length (m_threads c') = length (m_threads c)"
    "threadId (m_threads c' ! j) = threadId (m_threads c ! j)"
    "receivers (m_threads c' ! j) = receivers (m_threads c ! j)"
    "pendingToAdd (m_threads c' ! j) = pendingToAdd (m_threads c ! j)"
    "pendingToRemove (m_threads c' ! j) = pendingToRemove (m_threads c ! j)"
proof -
  from sendToQueue_shape[OF assms] obtain qs where
    c': "c' = upd_thread i (\<lambda>t. t\<lparr>queues := qs\<rparr>) c" by blast
  show "length (m_threads c') = length (m_threads c)" by (simp add: c')
  have "m_threads c' ! j = (if j = i \<and> i < length (m_threads c)
          then (m_threads c ! j)\<lparr>queues := qs\<rparr> else m_threads c ! j)"
    by (cases "i < length (m_threads c)") (auto simp: c' nth_list_update list_update_beyond)
  then show "threadId (m_threads c' ! j) = threadId (m_threads c ! j)"
    "receivers (m_threads c' ! j) = receivers (m_threads c ! j)"
    "pendingToAdd (m_threads c' ! j) = pendingToAdd (m_threads c ! j)"
    "pendingToRemove (m_threads c' ! j) = pendingToRemove (m_threads c ! j)"
    by simp_all
qed

lemma find_queue_update:
  "find_queue t qs = Some k \<Longrightarrow> receiveTh q = t \<Longrightarrow> find_queue t (qs[k := q]) = Some k"
proof (induction qs arbitrary: k)
  case Nil
  then show ?case by simp
next
  case (Cons a qs)
  then show ?case by (cases k) (auto split: if_splits)
qed

lemma find_queue_append_new:
  "find_queue t qs = None \<Longrightarrow> receiveTh q = t \<Longrightarrow> find_queue t (qs @ [q]) = Some (length qs)"
  by (induction qs) (auto split: if_splits)

lemma sendToQueue_enqueued:
  assumes i: "i < length (m_threads c)" and s: "sendToQueue b th i t m c = Inr c'"
  shows "\<exists>k. find_queue t (queues (m_threads c' ! i)) = Some k
           \<and> queue (queues (m_threads c' ! i) ! k) \<noteq> []
           \<and> last (queue (queues (m_threads c' ! i) ! k)) = m"
proof -
  let ?qs = "queues (m_threads c ! i)"
  show ?thesis
  proof (cases "find_queue t ?qs")
    case None
    let ?qs1 = "?qs @ [\<lparr>receiveTh = t, queue = []\<rparr>]"
    let ?qs2 = "?qs1[length ?qs := (?qs1 ! length ?qs)\<lparr>queue := queue (?qs1 ! length ?qs) @ [m]\<rparr>]"
    from s None have c': "c' = upd_thread i (\<lambda>t. t\<lparr>queues := ?qs2\<rparr>) c"
      by (auto simp: sendToQueue_def Let_def split: if_splits)
    have "find_queue t ?qs1 = Some (length ?qs)" using None by (simp add: find_queue_append_new)
    then have "find_queue t ?qs2 = Some (length ?qs)" by (rule find_queue_update) simp
    moreover have "queue (?qs2 ! length ?qs) = [m]" by simp
    ultimately show ?thesis using i by (simp add: c')
  next
    case (Some k)
    let ?qs2 = "?qs[k := (?qs ! k)\<lparr>queue := queue (?qs ! k) @ [m]\<rparr>]"
    from s Some have c': "c' = upd_thread i (\<lambda>t. t\<lparr>queues := ?qs2\<rparr>) c"
      by (auto simp: sendToQueue_def Let_def split: if_splits)
    from find_queue_Some[OF Some] have k: "k < length ?qs" "receiveTh (?qs ! k) = t" by simp_all
    have "find_queue t ?qs2 = Some k" using Some by (rule find_queue_update) (simp add: k)
    moreover have "queue (?qs2 ! k) = queue (?qs ! k) @ [m]" using k by simp
    ultimately show ?thesis using i by (simp add: c')
  qed
qed

lemma find_slot_append_other:
  "threadId t \<noteq> th \<Longrightarrow> find_slot th (ts @ [t]) = find_slot th ts"
  by (induction ts) auto

lemma threadData_other:
  assumes "threadData th c = Inr (i, c')" and "reg \<noteq> th"
  shows "find_slot reg (m_threads c') = find_slot reg (m_threads c)"
  using threadData_cases[OF assms(1)] assms(2) by (auto simp: find_slot_append_other)

lemma threadData_nth:
  assumes "threadData th c = Inr (i, c')" and "j < length (m_threads c)"
  shows "m_threads c' ! j = m_threads c ! j"
  using threadData_cases[OF assms(1)] assms(2) by (auto simp: nth_append)

lemma disconnect_other_thread_now:
  assumes ct: "async_connectThread (connects c) a \<noteq> Thread th"
    and d: "disconnect b th a c = Inr c'"
  shows "heap c' = heap c \<and> m_enabledReceiversCount c' = m_enabledReceiversCount c
       \<and> calls c' = calls c \<and> connects c' = async_disconnect a (connects c)
       \<and> (\<forall>reg. reg \<noteq> th \<longrightarrow> find_slot reg (m_threads c') = find_slot reg (m_threads c))
       \<and> (\<forall>j < length (m_threads c).
            receivers (m_threads c' ! j) = receivers (m_threads c ! j)
          \<and> pendingToAdd (m_threads c' ! j) = pendingToAdd (m_threads c ! j)
          \<and> pendingToRemove (m_threads c' ! j) = pendingToRemove (m_threads c ! j))
       \<and> (\<exists>i k. find_slot th (m_threads c') = Some i
            \<and> find_queue (async_connectThread (connects c) a) (queues (m_threads c' ! i)) = Some k
            \<and> queue (queues (m_threads c' ! i) ! k) \<noteq> []
            \<and> last (queue (queues (m_threads c' ! i) ! k)) = SelfDisconnect a)"
proof -
  let ?t = "async_connectThread (connects c) a"
  let ?c1 = "c\<lparr>connects := async_disconnect a (connects c)\<rparr>"
  from d ct obtain i c2 where td: "threadData th ?c1 = Inr (i, c2)"
    and sq: "sendToQueue b th i ?t (SelfDisconnect a) c2 = Inr c'"
    by (auto simp: disconnect_def disconnect2_def Let_def split: sum.splits)
  note f = threadData_Inr[OF td] sendToQueue_fields[OF sq]
  have a1: "heap c' = heap c" "m_enabledReceiversCount c' = m_enabledReceiversCount c"
    "calls c' = calls c" "connects c' = async_disconnect a (connects c)"
    using f by simp_all
  have a2: "find_slot reg (m_threads c') = find_slot reg (m_threads c)" if "reg \<noteq> th" for reg
    using sendToQueue_slots[OF sq] threadData_other[OF td that] by simp
  have a3: "receivers (m_threads c' ! j) = receivers (m_threads c ! j)
          \<and> pendingToAdd (m_threads c' ! j) = pendingToAdd (m_threads c ! j)
          \<and> pendingToRemove (m_threads c' ! j) = pendingToRemove (m_threads c ! j)"
    if "j < length (m_threads c)" for j
    using sendToQueue_tables[OF sq] threadData_nth[OF td] that by simp
  have fi: "find_slot th (m_threads c') = Some i"
    using sendToQueue_slots[OF sq] find_slot_threadData[OF td] by simp
  from sendToQueue_enqueued[OF f(1) sq] obtain k where
    "find_queue ?t (queues (m_threads c' ! i)) = Some k"
    "queue (queues (m_threads c' ! i) ! k) \<noteq> []"
    "last (queue (queues (m_threads c' ! i) ! k)) = SelfDisconnect a" by blast
  with fi have a4: "\<exists>i k. find_slot th (m_threads c') = Some i
            \<and> find_queue ?t (queues (m_threads c' ! i)) = Some k
            \<and> queue (queues (m_threads c' ! i) ! k) \<noteq> []
            \<and> last (queue (queues (m_threads c' ! i) ! k)) = SelfDisconnect a" by blast
  from a1 a2 a3 a4 show ?thesis by blast
qed

subsection \<open>The staging lists and the pass\<close>


lemma free_records_empty [simp]: "free_records {} h = h"
  by (simp add: free_records_def map_nth)


















subsection \<open>Subscribing, disconnecting and subscribing again inside one pass\<close>






subsection \<open>The debug build only adds aborts\<close>

lemma build_cases: "b = Debug \<or> b = Release"
  by (cases b) auto








subsection \<open>The calls of the tie-break scenario on one table\<close>




lemma records_of_connects [simp]: "records_of (c\<lparr>connects := x\<rparr>) i s = records_of c i s"
  by (simp add: records_of_def)







subsection \<open>The operations keep the tables well-formed\<close>














lemma records_of_fields [simp]:
  "records_of (c\<lparr>calls := x\<rparr>) j s = records_of c j s"
  "records_of (c\<lparr>m_enabledReceiversCount := y\<rparr>) j s = records_of c j s"
  by (simp_all add: records_of_def)

lemma wf_fields [simp]:
  "well_formed (c\<lparr>calls := x\<rparr>) = well_formed c"
  "well_formed (c\<lparr>m_enabledReceiversCount := y\<rparr>) = well_formed c"
  by (simp_all add: well_formed_def)




















subsection \<open>Walks and pumps of a promise's channel\<close>


lemma upd_thread'_simps [simp]:
  "max_threads' (upd_thread' i f c) = max_threads' c"
  "m_enabledReceiversCount' (upd_thread' i f c) = m_enabledReceiversCount' c"
  "connects' (upd_thread' i f c) = connects' c"
  "calls' (upd_thread' i f c) = calls' c"
  "queue_capacity' (upd_thread' i f c) = queue_capacity' c"
  "length (m_threads' (upd_thread' i f c)) = length (m_threads' c)"
  by (simp_all add: upd_thread'_def)

lemma upd_thread'_nth:
  "i < length (m_threads' c) \<Longrightarrow> m_threads' (upd_thread' i f c) ! i = f (m_threads' c ! i)"
  "j \<noteq> i \<Longrightarrow> m_threads' (upd_thread' i f c) ! j = m_threads' c ! j"
  by (simp_all add: upd_thread'_def)


lemma find_slot'_None: "find_slot' th ts = None \<Longrightarrow> \<forall>t \<in> set ts. threadId' t \<noteq> th"
  by (induction ts) (auto split: if_splits)

lemma find_slot'_append:
  "find_slot' th ts = Some i \<Longrightarrow> find_slot' th (ts @ us) = Some i"
  by (induction ts arbitrary: i) (auto split: if_splits)







lemma table_of_calls [simp]: "table_of th (c\<lparr>calls' := x\<rparr>) = table_of th c"
  by (simp add: table_of_def split: option.splits)

lemma nothing_in_flight_calls [simp]:
  "nothing_in_flight th (c\<lparr>calls' := x\<rparr>) = nothing_in_flight th c"
  by (simp add: nothing_in_flight_def)
















lemma table_of_count [simp]:
  "table_of th (c\<lparr>m_enabledReceiversCount' := x\<rparr>) = table_of th c"
  "table_of th (c\<lparr>connects' := y\<rparr>) = table_of th c"
  by (simp_all add: table_of_def split: option.splits)

lemma nothing_in_flight_count [simp]:
  "nothing_in_flight th (c\<lparr>m_enabledReceiversCount' := x\<rparr>) = nothing_in_flight th c"
  "nothing_in_flight th (c\<lparr>connects' := y\<rparr>) = nothing_in_flight th c"
  by (simp_all add: nothing_in_flight_def)

lemma queued_fields [simp]:
  "queued th s k (c\<lparr>m_enabledReceiversCount' := x\<rparr>) = queued th s k c"
  "queued th s k (c\<lparr>connects' := y\<rparr>) = queued th s k c"
  "queued th s k (c\<lparr>calls' := z\<rparr>) = queued th s k c"
  by (simp_all add: queued_def)







subsection \<open>The count covers the enabled records\<close>

lemma filter_length_update:
  "i < length xs \<Longrightarrow>
   length (filter P (xs[i := x])) + (if P (xs ! i) then 1 else 0)
     = length (filter P xs) + (if P x then 1 else 0)"
proof (induction xs arbitrary: i)
  case Nil
  then show ?case by simp
next
  case (Cons a xs)
  then show ?case by (cases i) auto
qed

lemma filter_length_mono:
  "length xs = length ys \<Longrightarrow> (\<forall>i < length xs. P (xs ! i) \<longrightarrow> P (ys ! i))
     \<Longrightarrow> length (filter P xs) \<le> length (filter P ys)"
proof (induction xs ys rule: list_induct2)
  case Nil
  then show ?case by simp
next
  case (Cons x xs y ys)
  from Cons.prems have h: "P x \<longrightarrow> P y" and t: "\<forall>i < length xs. P (xs ! i) \<longrightarrow> P (ys ! i)"
    by auto
  from Cons.IH[OF t] h show ?case by auto
qed

lemma enabled_records_append:
  "enabled_records (h @ [Some rc]) = enabled_records h + (if enabled rc then 1 else 0)"
  by (simp add: enabled_records_def)

lemma enabled_records_update:
  assumes "rec_at h r = Some rc"
  shows "enabled_records (h[r := Some rc']) + (if enabled rc then 1 else 0)
           = enabled_records h + (if enabled rc' then 1 else 0)"
proof -
  from assms have r: "r < length h" "h ! r = Some rc"
    by (auto simp: rec_at_def split: if_splits)
  from filter_length_update[OF r(1), of "\<lambda>e. case e of None \<Rightarrow> False | Some rc \<Rightarrow> enabled rc" "Some rc'"]
  show ?thesis by (simp add: enabled_records_def r(2))
qed

lemma enabled_records_freed:
  assumes "length h' = length h" "\<forall>r. rec_at h' r = rec_at h r \<or> rec_at h' r = None"
  shows "enabled_records h' \<le> enabled_records h"
  unfolding enabled_records_def
proof (rule filter_length_mono[OF assms(1)], intro allI impI)
  fix i
  assume i: "i < length h'"
    and p: "case h' ! i of None \<Rightarrow> False | Some rc \<Rightarrow> enabled rc"
  from assms(2)[rule_format, of i] i assms(1) have "h' ! i = h ! i \<or> h' ! i = None"
    by (simp add: rec_at_def)
  with p show "case h ! i of None \<Rightarrow> False | Some rc \<Rightarrow> enabled rc" by auto
qed

lemma stable_count_covers:
  "stable (\<lambda>c. int (enabled_records (heap c)) \<le> m_enabledReceiversCount c)"
  unfolding stable_def callback_stable_def
proof (intro conjI allI impI)
  fix b th rcv f mode c c'
  assume p: "int (enabled_records (heap c)) \<le> m_enabledReceiversCount c"
    and o: "onReceive b th rcv f mode c = Inr c'"
  from onReceive_effect[OF o] consider
    "heap c' = heap c @ [Some \<lparr>enabled = True, receiver = rcv, callback = f\<rparr>]"
      "m_enabledReceiversCount c' = m_enabledReceiversCount c + 1"
    | "heap c' = heap c" "m_enabledReceiversCount c' = m_enabledReceiversCount c"
    | r rc where "rec_at (heap c) r = Some rc" "heap c' = (heap c)[r := Some (rc\<lparr>callback := f\<rparr>)]"
      "m_enabledReceiversCount c' = m_enabledReceiversCount c"
    by auto
  then show "int (enabled_records (heap c')) \<le> m_enabledReceiversCount c'"
  proof cases
    case 1
    with p show ?thesis by (simp add: enabled_records_append)
  next
    case 2
    with p show ?thesis by simp
  next
    case 3
    from enabled_records_update[OF 3(1), of "rc\<lparr>callback := f\<rparr>"] p 3 show ?thesis by simp
  qed
next
  fix b th a c c'
  assume p: "int (enabled_records (heap c)) \<le> m_enabledReceiversCount c"
    and o: "disconnect_removeReceiver b th a c = Inr c'"
  from disconnect_removeReceiver_effect[OF o] consider
    "heap c' = heap c" "m_enabledReceiversCount c' = m_enabledReceiversCount c"
    | r rc where "rec_at (heap c) r = Some rc" "enabled rc"
      "heap c' = (heap c)[r := Some (rc\<lparr>enabled := False, receiver := None\<rparr>)]"
      "m_enabledReceiversCount c' = m_enabledReceiversCount c - 1"
    by auto
  then show "int (enabled_records (heap c')) \<le> m_enabledReceiversCount c'"
  proof cases
    case 1
    with p show ?thesis by simp
  next
    case 2
    from enabled_records_update[OF 2(1), of "rc\<lparr>enabled := False, receiver := None\<rparr>"] p 2
    show ?thesis by simp
  qed
next
  fix b i c c'
  assume p: "int (enabled_records (heap c)) \<le> m_enabledReceiversCount c"
    and o: "removePending b i c = Inr c'"
  from removePending_effect[OF o] have
    l: "length (heap c') = length (heap c)"
    and f: "\<forall>r. rec_at (heap c') r = rec_at (heap c) r \<or> rec_at (heap c') r = None"
    and m: "m_enabledReceiversCount c' = m_enabledReceiversCount c"
    by auto
  from enabled_records_freed[OF l f] p m
  show "int (enabled_records (heap c')) \<le> m_enabledReceiversCount c'" by simp
next
  fix th c i c'
  assume "int (enabled_records (heap c)) \<le> m_enabledReceiversCount c" "threadData th c = Inr (i, c')"
  then show "int (enabled_records (heap c')) \<le> m_enabledReceiversCount c'"
    by (simp add: threadData_Inr)
next
  fix b th i t m c c'
  assume "int (enabled_records (heap c)) \<le> m_enabledReceiversCount c" "sendToQueue b th i t m c = Inr c'"
  then show "int (enabled_records (heap c')) \<le> m_enabledReceiversCount c'"
    by (simp add: sendToQueue_fields)
qed simp_all

subsection \<open>A call of \<open>processMessages\<close> is a history of receive ports run\<close>

lemma steps_append:
  "steps b (xs @ ys) c = (case steps b xs c of Inl e \<Rightarrow> Inl e | Inr c' \<Rightarrow> steps b ys c')"
  by (induction xs arbitrary: c) (auto split: sum.splits)


lemma process_ports_steps:
  "process_ports (port_process b th) ps c
     = steps b (map (\<lambda>x. Process th (fst x) (snd x))
                 (concat (map (\<lambda>p. case p of ReceivePort s k \<Rightarrow> [(s, k)] | _ \<Rightarrow> []) ps))) c"
proof (induction ps arbitrary: c)
  case Nil
  then show ?case by simp
next
  case (Cons p ps)
  then show ?case
    by (cases p) (auto simp: port_process_def split: sum.splits)
qed

lemma processMessages_steps:
  "processMessages (port_process b th) th q c
     = steps b (map (\<lambda>x. Process th (fst x) (snd x)) (drained th q)) c"
  by (simp add: processMessages_def drained_def process_ports_steps split: option.splits)




lemma regPort_loop_registered:
  assumes "list_all (\<lambda>t. list_all (\<lambda>p. reg p = pool_threadId t) (ports t)) ts"
    and "reg port = th" and "regPort_loop th port ts = Some ts'"
  shows "list_all (\<lambda>t. list_all (\<lambda>p. reg p = pool_threadId t) (ports t)) ts'"
  using assms
proof (induction ts arbitrary: ts')
  case Nil
  then show ?case by simp
next
  case (Cons t ts)
  then show ?case by (auto split: if_splits)
qed

lemma regPort_registered:
  assumes "registered_under reg q" and "reg port = th" and "regPort b th port q = Inr q'"
  shows "registered_under reg q'"
  using assms regPort_loop_registered[of reg "pool_threads q" port th]
  by (auto simp: registered_under_def regPort_def split: option.splits if_splits)

lemma unregPort_registered:
  "registered_under reg q \<Longrightarrow> registered_under reg (unregPort th port q)"
  by (auto simp: registered_under_def unregPort_def list_all_iff)

lemma pool_after_resolve_regPort:
  "bindE (regPort b (Thread 0) (SendPort 1 0) \<lparr>pool_threads = [], MAX_THREADS = 100\<rparr>)
         (regPort b (Thread 1) (ReceivePort 1 0)) = Inr pool_after_resolve"
  by (simp add: bindE_def regPort_def pool_after_resolve_def)

section \<open>Properties of the current \<open>ChannelImpl\<close>\<close>

subsection \<open>Sending without receivers\<close>

text \<open>
  Claim C8.  On a channel whose enabled-receiver count is 0, \<open>send\<close> in either mode and
  with any arguments returns at once: no callback is invoked, no message is queued and
  the state of the channel is what it was.
\<close>

theorem send_not_connected_noop:
  "m_enabledReceiversCount c = 0 \<Longrightarrow> send b th mode as c = Inr c"
  by (simp add: send_def isConnected_def)

theorem send_not_connected_noop_witness:
  "m_enabledReceiversCount (new_ChannelImpl 16 2048) = 0
   \<and> send Release 0 Auto [42] (new_ChannelImpl 16 2048) = Inr (new_ChannelImpl 16 2048)
   \<and> send Debug 3 Queue [] (new_ChannelImpl 16 2048) = Inr (new_ChannelImpl 16 2048)"
  using send_not_connected_noop [of "new_ChannelImpl 16 2048"]
  by (simp add: new_ChannelImpl_def)

subsection \<open>\<open>SetOnce\<close> on a subscriber that is already registered\<close>

text \<open>
  Claim C1 as stated says that a release build replaces the callback.  It does not: the
  subscriber 7 registers callback 1 and then callback 2, both with \<open>SetOnce\<close>, and the
  send that follows invokes callback 1 on the record at address 0.
\<close>

theorem setonce_release_counterexample:
  "map_sum id calls
     (steps Release
        [OnReceive 0 (Some 7) (Callback 1 []) SetOnce,
         OnReceive 0 (Some 7) (Callback 2 []) SetOnce,
         Send 0 Auto [42]]
        (new_ChannelImpl 16 2048))
   = Inr [(0, 1, [42])]"
  by code_simp

text \<open>
  Claim C1, amended.  When the calling thread's table already holds a record of the
  subscriber (in the receiver list or still in \<open>pendingToAdd\<close>), \<open>onReceive\<close> with
  \<open>SetOnce\<close> fails the assertion in a debug build, and in a release build returns with
  the channel unchanged: the old callback stays, nothing is added and nothing is counted.
\<close>

theorem setonce_existing:
  assumes "find_slot th (m_threads c) = Some i"
    and "findByAsyncable (heap c) (receivers (m_threads c ! i)) (Some a) \<noteq> None
         \<or> findByAsyncable (heap c) (pendingToAdd (m_threads c ! i)) (Some a) \<noteq> None"
  shows "onReceive Debug th (Some a) f SetOnce c = Inl AssertCallbackAlreadySet
         \<and> onReceive Release th (Some a) f SetOnce c = Inr c"
  using assms
  by (auto simp: onReceive_def threadData_def addReceiver_def Let_def split: option.splits)

theorem setonce_existing_witness:
  "find_slot 0 (m_threads one_subscriber) = Some 0
   \<and> findByAsyncable (heap one_subscriber) (receivers (m_threads one_subscriber ! 0)) (Some 7) = Some 0
   \<and> onReceive Debug 0 (Some 7) (Callback 2 []) SetOnce one_subscriber = Inl AssertCallbackAlreadySet
   \<and> onReceive Release 0 (Some 7) (Callback 2 []) SetOnce one_subscriber = Inr one_subscriber"
  using setonce_existing [of 0 one_subscriber 0 7 "Callback 2 []"]
  by (simp add: one_subscriber_def findByAsyncable_def rec_at_def)

subsection \<open>Disabled records have no subscriber\<close>

text \<open>
  Claim C10 as stated ends with: a re-subscribe after a disconnect always creates a fresh
  enabled record.  It does not when the disconnect came from another thread and the
  registration thread has not run it yet.  Thread 0 subscribes the subscriber 7, thread 1
  disconnects it, thread 0 subscribes it again with \<open>AsyncSet\<close>: the heap still holds the one
  record, now with the second callback, and the subscriber has no connection entry.  When
  thread 0 then runs the queued self-disconnect, that record is removed, and the next \<open>send\<close>
  invokes nothing.
\<close>

theorem resubscribe_revives_counterexample:
  "map_sum id (\<lambda>c. (heap c, connects c, m_enabledReceiversCount c))
     (steps Release
        [OnReceive 0 (Some 7) (Callback 1 []) SetOnce, Disconnect 1 7,
         OnReceive 0 (Some 7) (Callback 2 []) AsyncSet]
        (new_ChannelImpl 16 2048))
   = Inr ([Some \<lparr>enabled = True, receiver = Some 7, callback = Callback 2 []\<rparr>], [], 1)
   \<and> map_sum id (\<lambda>c. (heap c, calls c, m_enabledReceiversCount c))
     (steps Release
        [OnReceive 0 (Some 7) (Callback 1 []) SetOnce, Disconnect 1 7,
         OnReceive 0 (Some 7) (Callback 2 []) AsyncSet, Process 0 1 0, Send 0 Auto [5]]
        (new_ChannelImpl 16 2048))
   = Inr ([None], [], 0)"
  by code_simp





subsection \<open>Subscribing and disconnecting at once\<close>

text \<open>
  Claim C5.  Let the subscriber \<open>s\<close> have no record on the channel and no connection entry
  for it, and let the calling thread have a table or a free slot.  Then \<open>onReceive(s, f)\<close>
  followed by \<open>disconnect(s)\<close> on that thread both return, and afterwards the enabled
  count and hence \<open>isConnected()\<close> are what they were, \<open>s\<close> has no connection entry, no
  callback was invoked, the one record made for \<open>s\<close> is disabled and without subscriber,
  and no history of later operations (sends and pumps among them) ever invokes the
  callback of that record.
\<close>

theorem subscribe_disconnect_roundtrip:
  assumes nosub: "\<forall>rc. Some rc \<in> set (heap c) \<longrightarrow> receiver rc \<noteq> Some s"
    and noconn: "map_of (connects c) s = None"
    and slot: "find_slot th (m_threads c) \<noteq> None \<or> length (m_threads c) < max_threads c"
    and cnt: "0 \<le> m_enabledReceiversCount c"
  shows "\<exists>c1 c2. onReceive b th (Some s) f mode c = Inr c1 \<and> disconnect b th s c1 = Inr c2
      \<and> m_enabledReceiversCount c2 = m_enabledReceiversCount c
      \<and> isConnected c2 = isConnected c
      \<and> connects c2 = connects c
      \<and> calls c2 = calls c
      \<and> heap c2 = heap c @ [Some \<lparr>enabled = False, receiver = None, callback = f\<rparr>]
      \<and> (\<forall>ops c3. steps b ops c2 = Inr c3
            \<longrightarrow> list_all (\<lambda>e. fst e \<noteq> length (heap c)) (drop (length (calls c)) (calls c3)))"
proof -
  let ?r = "length (heap c)"
  let ?new = "\<lparr>enabled = True, receiver = Some s, callback = f\<rparr>"
  from threadData_exists[OF slot] obtain i c0 where td: "threadData th c = Inr (i, c0)"
    by blast
  note f0 = threadData_Inr[OF td]
  have nomatch: "receiver rc \<noteq> Some s" if "rec_at (heap c) r = Some rc" for r rc
  proof -
    from that have "r < length (heap c)" "heap c ! r = Some rc"
      by (auto simp: rec_at_def split: if_splits)
    then have "Some rc \<in> set (heap c)" by (metis nth_mem)
    with nosub show ?thesis by blast
  qed
  have none0: "findByAsyncable (heap c) recs (Some s) = None" for recs
    by (rule findByAsyncable_NoneI) (use nomatch in auto)
  define c1a where "c1a = upd_thread i (\<lambda>t. t\<lparr>pendingToAdd := pendingToAdd t @ [?r]\<rparr>)
      (c0\<lparr>heap := heap c0 @ [Some ?new], connects := async_connect s th (connects c0)\<rparr>)"
  have ar: "addReceiver b th i (Some s) f mode c0 = Inr (True, c1a)"
    by (simp add: addReceiver_def Let_def none0 c1a_def f0(3))
  define c1 where "c1 = c1a\<lparr>m_enabledReceiversCount := m_enabledReceiversCount c1a + 1\<rparr>"
  have on: "onReceive b th (Some s) f mode c = Inr c1"
    by (simp add: onReceive_def td ar c1_def)
  have h1: "heap c1 = heap c @ [Some ?new]" "connects c1 = async_connect s th (connects c)"
    "calls c1 = calls c" "m_enabledReceiversCount c1 = m_enabledReceiversCount c + 1"
    "m_threads c1 = (m_threads c0)[i := (m_threads c0 ! i)\<lparr>pendingToAdd := pendingToAdd (m_threads c0 ! i) @ [?r]\<rparr>]"
    by (simp_all add: c1_def c1a_def f0)
  define c1b where "c1b = c1\<lparr>connects := async_disconnect s (connects c1)\<rparr>"
  have fs: "find_slot th (m_threads c1b) = Some i"
    using find_slot_threadData[OF td] by (simp add: c1b_def h1(5) find_slot_update)
  have td1: "threadData th c1b = Inr (i, c1b)" using fs by (rule threadData_found)
  let ?t = "m_threads c1b ! i"
  have lists: "receivers ?t = receivers (m_threads c0 ! i)"
    "pendingToAdd ?t = pendingToAdd (m_threads c0 ! i) @ [?r]"
    using f0(1) by (simp_all add: c1b_def h1(5))
  have hb: "heap c1b = heap c @ [Some ?new]" by (simp add: c1b_def h1)
  have only: "r = ?r" if "findByAsyncable (heap c1b) recs (Some s) = Some r" for recs r
  proof -
    from findByAsyncable_Some[OF that] obtain rc where
      "rec_at (heap c1b) r = Some rc" "receiver rc = Some s" by blast
    then show ?thesis using nomatch[of r rc] by (auto simp: hb rec_at_append split: if_splits)
  qed
  have last: "findByAsyncable (heap c1b) [?r] (Some s) = Some ?r"
    by (simp add: findByAsyncable_def hb rec_at_append)
  have found: "(case findByAsyncable (heap c1b) (receivers ?t) (Some s) of
               Some r \<Rightarrow> Some r
             | None \<Rightarrow> findByAsyncable (heap c1b) (pendingToAdd ?t) (Some s)) = Some ?r"
  proof (cases "findByAsyncable (heap c1b) (receivers ?t) (Some s)")
    case (Some r)
    with only[OF Some] show ?thesis by simp
  next
    case None
    show ?thesis
    proof (cases "findByAsyncable (heap c1b) (pendingToAdd (m_threads c0 ! i)) (Some s)")
      case (Some r)
      with only[OF Some] None show ?thesis
        by (simp add: lists(2) findByAsyncable_append)
    next
      case None2: None
      with None last show ?thesis
        by (simp add: lists(2) findByAsyncable_append)
    qed
  qed
  define c2a where "c2a = upd_thread i (\<lambda>t. t\<lparr>pendingToRemove := pendingToRemove t @ [?r]\<rparr>)
      (c1b\<lparr>heap := (heap c1b)[?r := Some (?new\<lparr>enabled := False, receiver := None\<rparr>)]\<rparr>)"
  have rr: "removeReceiver i s c1b = (True, c2a)"
    by (simp add: removeReceiver_def Let_def found c2a_def) (simp add: hb rec_at_append)
  define c2 where "c2 = c2a\<lparr>m_enabledReceiversCount := m_enabledReceiversCount c2a - 1\<rparr>"
  have cnt2: "m_enabledReceiversCount c2 = m_enabledReceiversCount c"
    by (simp add: c2_def c2a_def c1b_def h1)
  have dr: "disconnect_removeReceiver b th s c1b = Inr c2"
    using cnt cnt2 by (simp add: disconnect_removeReceiver_def td1 rr Let_def c2_def)
  have dis: "disconnect b th s c1 = Inr c2"
    by (simp add: disconnect_def disconnect2_def async_connectThread_def h1(2) Let_def
        dr[unfolded c1b_def h1(2)])
  have h2: "heap c2 = heap c @ [Some \<lparr>enabled = False, receiver = None, callback = f\<rparr>]"
    "connects c2 = connects c" "calls c2 = calls c"
    by (simp_all add: c2_def c2a_def c1b_def h1 async_disconnect_connect[OF noconn])
  have ncf: "never_called_from (length (calls c)) ?r c2"
    by (simp add: never_called_from_def h2)
  have after: "list_all (\<lambda>e. fst e \<noteq> ?r) (drop (length (calls c)) (calls c3))"
    if "steps b ops c2 = Inr c3" for ops c3
    using stable_steps[OF stable_never_called_from ncf that]
    by (simp add: never_called_from_def)
  from on dis cnt2 h2 after show ?thesis
    by (auto simp: isConnected_def)
qed

theorem subscribe_disconnect_roundtrip_witness:
  "heap (new_ChannelImpl 16 2048) = []
   \<and> map_of (connects (new_ChannelImpl 16 2048)) 7 = None
   \<and> length (m_threads (new_ChannelImpl 16 2048)) < max_threads (new_ChannelImpl 16 2048)
   \<and> 0 \<le> m_enabledReceiversCount (new_ChannelImpl 16 2048)
   \<and> (\<exists>c1 c2. onReceive Debug 0 (Some 7) (Callback 1 []) SetOnce (new_ChannelImpl 16 2048) = Inr c1
         \<and> disconnect Debug 0 7 c1 = Inr c2
         \<and> m_enabledReceiversCount c2 = 0 \<and> \<not> isConnected c2 \<and> connects c2 = [] \<and> calls c2 = []
         \<and> heap c2 = [Some \<lparr>enabled = False, receiver = None, callback = Callback 1 []\<rparr>])"
proof -
  have h: "\<forall>rc. Some rc \<in> set (heap (new_ChannelImpl 16 2048)) \<longrightarrow> receiver rc \<noteq> Some 7"
    "map_of (connects (new_ChannelImpl 16 2048)) 7 = None"
    "find_slot 0 (m_threads (new_ChannelImpl 16 2048)) \<noteq> None
      \<or> length (m_threads (new_ChannelImpl 16 2048)) < max_threads (new_ChannelImpl 16 2048)"
    "0 \<le> m_enabledReceiversCount (new_ChannelImpl 16 2048)"
    by (simp_all add: new_ChannelImpl_def)
  from subscribe_disconnect_roundtrip[OF h, of Debug "Callback 1 []" SetOnce]
  obtain c1 c2 where
    "onReceive Debug 0 (Some 7) (Callback 1 []) SetOnce (new_ChannelImpl 16 2048) = Inr c1"
    "disconnect Debug 0 7 c1 = Inr c2"
    "m_enabledReceiversCount c2 = m_enabledReceiversCount (new_ChannelImpl 16 2048)"
    "isConnected c2 = isConnected (new_ChannelImpl 16 2048)"
    "connects c2 = connects (new_ChannelImpl 16 2048)"
    "calls c2 = calls (new_ChannelImpl 16 2048)"
    "heap c2 = heap (new_ChannelImpl 16 2048) @ [Some \<lparr>enabled = False, receiver = None, callback = Callback 1 []\<rparr>]"
    by blast
  then have "onReceive Debug 0 (Some 7) (Callback 1 []) SetOnce (new_ChannelImpl 16 2048) = Inr c1
         \<and> disconnect Debug 0 7 c1 = Inr c2
         \<and> m_enabledReceiversCount c2 = 0 \<and> \<not> isConnected c2 \<and> connects c2 = [] \<and> calls c2 = []
         \<and> heap c2 = [Some \<lparr>enabled = False, receiver = None, callback = Callback 1 []\<rparr>]"
    by (simp add: new_ChannelImpl_def isConnected_def)
  then have "\<exists>c1 c2. onReceive Debug 0 (Some 7) (Callback 1 []) SetOnce (new_ChannelImpl 16 2048) = Inr c1
         \<and> disconnect Debug 0 7 c1 = Inr c2
         \<and> m_enabledReceiversCount c2 = 0 \<and> \<not> isConnected c2 \<and> connects c2 = [] \<and> calls c2 = []
         \<and> heap c2 = [Some \<lparr>enabled = False, receiver = None, callback = Callback 1 []\<rparr>]"
    by blast
  then show ?thesis by (simp add: new_ChannelImpl_def)
qed

subsection \<open>Disconnecting twice\<close>



subsection \<open>Disconnecting from another thread\<close>

text \<open>
  Claim C2 as stated says that \<open>disconnect\<close> called from a thread other than the
  registration thread disables the record and decrements the count before it returns.
  It does not: thread 0 has registered the subscriber 7, thread 1 disconnects it, and on
  return the count is still 1 and the record is still enabled.
\<close>


theorem disconnect_other_thread_counterexample:
  "map_sum id (\<lambda>c. (m_enabledReceiversCount c, map (map_option enabled) (heap c)))
     (disconnect Release 1 7 one_subscriber) = Inr (1, [Some True])"
  by code_simp

text \<open>
  Claim C2, amended.  Let the subscriber \<open>a\<close> be connected with registration thread
  \<open>reg\<close>, let another thread \<open>th\<close> call \<open>disconnect(a)\<close>, and let the table of \<open>reg\<close>
  have no staged removals and hold the enabled record \<open>r\<close> of \<open>a\<close> and no other record of
  \<open>a\<close>.  When \<open>disconnect\<close> returns, the record is still enabled and still in the table, the
  count is unchanged, the connection entry of \<open>a\<close> is gone and the caller's queue for
  \<open>reg\<close> ends with the self-disconnect message.  When the handler on \<open>reg\<close> runs that
  message, the record is taken out of the table and freed and the count drops by one.
\<close>

theorem disconnect_other_thread:
  assumes conn: "map_of (connects c) a = Some reg" and other: "reg \<noteq> th"
    and fs: "find_slot reg (m_threads c) = Some j"
    and pr: "pendingToRemove (m_threads c ! j) = []"
    and dist: "distinct (receivers (m_threads c ! j) @ pendingToAdd (m_threads c ! j))"
    and live: "\<forall>x \<in> set (receivers (m_threads c ! j) @ pendingToAdd (m_threads c ! j)).
                 rec_at (heap c) x \<noteq> None"
    and r: "r \<in> set (receivers (m_threads c ! j) @ pendingToAdd (m_threads c ! j))"
      "rec_at (heap c) r = Some rc" "enabled rc" "receiver rc = Some a"
    and uniq: "\<forall>x \<in> set (receivers (m_threads c ! j) @ pendingToAdd (m_threads c ! j)).
                 \<forall>rc'. x \<noteq> r \<longrightarrow> rec_at (heap c) x = Some rc' \<longrightarrow> receiver rc' \<noteq> Some a"
    and cnt: "0 < m_enabledReceiversCount c"
    and d: "disconnect b th a c = Inr c'"
  shows "rec_at (heap c') r = Some rc
      \<and> m_enabledReceiversCount c' = m_enabledReceiversCount c
      \<and> r \<in> set (receivers (m_threads c' ! j) @ pendingToAdd (m_threads c' ! j))
      \<and> map_of (connects c') a = None
      \<and> (\<exists>i k. find_slot th (m_threads c') = Some i
            \<and> find_queue (Thread reg) (queues (m_threads c' ! i)) = Some k
            \<and> queue (queues (m_threads c' ! i) ! k) \<noteq> []
            \<and> last (queue (queues (m_threads c' ! i) ! k)) = SelfDisconnect a)
      \<and> (\<exists>c''. onMessage b reg (SelfDisconnect a) c' = Inr c''
            \<and> rec_at (heap c'') r = None
            \<and> r \<notin> set (receivers (m_threads c'' ! j) @ pendingToAdd (m_threads c'' ! j))
            \<and> m_enabledReceiversCount c'' = m_enabledReceiversCount c - 1)"
proof -
  let ?R = "receivers (m_threads c ! j) @ pendingToAdd (m_threads c ! j)"
  from conn other have ct: "async_connectThread (connects c) a = Thread reg"
    "async_connectThread (connects c) a \<noteq> Thread th"
    by (simp_all add: async_connectThread_def)
  from find_slot_Some[OF fs] have j: "j < length (m_threads c)" by simp
  from disconnect_other_thread_now[OF ct(2) d] have
    now: "heap c' = heap c" "m_enabledReceiversCount c' = m_enabledReceiversCount c"
      "connects c' = async_disconnect a (connects c)"
    and fs': "find_slot reg (m_threads c') = find_slot reg (m_threads c)"
    and tabs: "receivers (m_threads c' ! j) = receivers (m_threads c ! j)"
      "pendingToAdd (m_threads c' ! j) = pendingToAdd (m_threads c ! j)"
      "pendingToRemove (m_threads c' ! j) = pendingToRemove (m_threads c ! j)"
    and msg: "\<exists>i k. find_slot th (m_threads c') = Some i
            \<and> find_queue (Thread reg) (queues (m_threads c' ! i)) = Some k
            \<and> queue (queues (m_threads c' ! i) ! k) \<noteq> []
            \<and> last (queue (queues (m_threads c' ! i) ! k)) = SelfDisconnect a"
    using other j unfolding ct(1) by auto
  have R': "?R = receivers (m_threads c' ! j) @ pendingToAdd (m_threads c' ! j)"
    by (simp add: tabs)
  have "\<exists>d'. onMessage b reg (SelfDisconnect a) c' = Inr d'
      \<and> heap d' = (heap c')[r := None]
      \<and> m_enabledReceiversCount d' = m_enabledReceiversCount c' - 1
      \<and> receivers (m_threads d' ! j) = remove1 r ?R
      \<and> pendingToAdd (m_threads d' ! j) = [] \<and> pendingToRemove (m_threads d' ! j) = []
      \<and> calls d' = calls c' \<and> connects d' = connects c'"
  proof (rule self_disconnect_processed[where rc = rc])
    show "find_slot reg (m_threads c') = Some j" using fs fs' by simp
    show "pendingToRemove (m_threads c' ! j) = []" using pr tabs by simp
    show "?R = receivers (m_threads c' ! j) @ pendingToAdd (m_threads c' ! j)" by (rule R')
    show "distinct ?R" by (rule dist)
    show "rec_at (heap c') x \<noteq> None" if "x \<in> set ?R" for x using live that now(1) by simp
    show "r \<in> set ?R" by (rule r(1))
    show "rec_at (heap c') r = Some rc" using r(2) now(1) by simp
    show "enabled rc" by (rule r(3))
    show "receiver rc = Some a" by (rule r(4))
    show "receiver rc' \<noteq> Some a" if "x \<in> set ?R" "x \<noteq> r" "rec_at (heap c') x = Some rc'" for x rc'
      using uniq that now(1) by simp
    show "0 < m_enabledReceiversCount c'" using cnt now(2) by simp
  qed
  then obtain d' where om: "onMessage b reg (SelfDisconnect a) c' = Inr d'"
    and h': "heap d' = (heap c')[r := None]"
    and c'': "m_enabledReceiversCount d' = m_enabledReceiversCount c' - 1"
    and t': "receivers (m_threads d' ! j) = remove1 r ?R" "pendingToAdd (m_threads d' ! j) = []"
    by blast
  have gone: "rec_at (heap d') r = None" by (simp add: h' rec_at_update rec_at_def)
  have out: "r \<notin> set (receivers (m_threads d' ! j) @ pendingToAdd (m_threads d' ! j))"
    using dist by (simp add: t')
  have later: "\<exists>c''. onMessage b reg (SelfDisconnect a) c' = Inr c''
            \<and> rec_at (heap c'') r = None
            \<and> r \<notin> set (receivers (m_threads c'' ! j) @ pendingToAdd (m_threads c'' ! j))
            \<and> m_enabledReceiversCount c'' = m_enabledReceiversCount c - 1"
    using om gone out c'' now(2) by auto
  have "rec_at (heap c') r = Some rc" using r(2) now(1) by simp
  moreover have "r \<in> set (receivers (m_threads c' ! j) @ pendingToAdd (m_threads c' ! j))"
    using r(1) R' by simp
  moreover have "map_of (connects c') a = None" by (simp add: now(3))
  ultimately show ?thesis using now(2) msg later by blast
qed

theorem disconnect_other_thread_witness:
  "disconnect Debug 1 7 one_subscriber = Inr disconnect_posted
   \<and> rec_at (heap disconnect_posted) 0
        = Some \<lparr>enabled = True, receiver = Some 7, callback = Callback 1 []\<rparr>
   \<and> m_enabledReceiversCount disconnect_posted = 1
   \<and> map_of (connects disconnect_posted) 7 = None
   \<and> (\<exists>c''. onMessage Debug 0 (SelfDisconnect 7) disconnect_posted = Inr c''
            \<and> rec_at (heap c'') 0 = None
            \<and> 0 \<notin> set (receivers (m_threads c'' ! 0) @ pendingToAdd (m_threads c'' ! 0))
            \<and> m_enabledReceiversCount c'' = 0)"
proof -
  have d: "disconnect Debug 1 7 one_subscriber = Inr disconnect_posted" by code_simp
  have h: "map_of (connects one_subscriber) 7 = Some 0" "(0::nat) \<noteq> 1"
    "find_slot 0 (m_threads one_subscriber) = Some 0"
    "pendingToRemove (m_threads one_subscriber ! 0) = []"
    "distinct (receivers (m_threads one_subscriber ! 0) @ pendingToAdd (m_threads one_subscriber ! 0))"
    "\<forall>x \<in> set (receivers (m_threads one_subscriber ! 0) @ pendingToAdd (m_threads one_subscriber ! 0)).
       rec_at (heap one_subscriber) x \<noteq> None"
    "0 \<in> set (receivers (m_threads one_subscriber ! 0) @ pendingToAdd (m_threads one_subscriber ! 0))"
    "rec_at (heap one_subscriber) 0 = Some \<lparr>enabled = True, receiver = Some 7, callback = Callback 1 []\<rparr>"
    "enabled \<lparr>enabled = True, receiver = Some 7, callback = Callback 1 []\<rparr>"
    "receiver \<lparr>enabled = True, receiver = Some 7, callback = Callback 1 []\<rparr> = Some 7"
    "\<forall>x \<in> set (receivers (m_threads one_subscriber ! 0) @ pendingToAdd (m_threads one_subscriber ! 0)).
       \<forall>rc'. x \<noteq> 0 \<longrightarrow> rec_at (heap one_subscriber) x = Some rc' \<longrightarrow> receiver rc' \<noteq> Some 7"
    "0 < m_enabledReceiversCount one_subscriber"
    by (simp_all add: one_subscriber_def rec_at_def)
  from disconnect_other_thread[OF h d] d show ?thesis
    by (simp add: one_subscriber_def)
qed

subsection \<open>The order of a dispatch pass\<close>



subsection \<open>The last \<open>onReceive\<close> of a pass wins\<close>




text \<open>
  When the subscriber had no record before, the record of the first \<open>onReceive\<close> is still in
  \<open>pendingToAdd\<close> when the end of the pass applies \<open>pendingToRemove\<close>: a debug build fails
  the assertion of \<open>removePending\<close>, and a release build moves the disabled record into the
  receiver list afterwards, where it stays.
\<close>

lemma same_pass_removal_debug_assertion:
  "bindE (run_actions Debug 0
            (subscribe_disconnect_subscribe 8 (Callback 1 []) SetOnce (Callback 2 []) SetOnce)
            one_subscriber)
         (end_of_pass Debug 0) = Inl AssertPendingNotFound"
  by code_simp

lemma same_pass_removal_release_leftover:
  "map_sum id (\<lambda>c. (receivers (m_threads c ! 0), map (map_option enabled) (heap c)))
     (bindE (run_actions Release 0
               (subscribe_disconnect_subscribe 8 (Callback 1 []) SetOnce (Callback 2 []) SetOnce)
               one_subscriber)
            (end_of_pass Release 0))
   = Inr ([0, 1, 2], [Some True, Some False, Some True])"
  by code_simp

subsection \<open>The count of enabled receivers\<close>

text \<open>
  Claim C7.  The count is meant never to be negative: \<open>disconnectReceiver\<close> and
  \<open>disableReceiver\<close> assert it after they decrement.  \<open>disableReceiver\<close> decrements without
  looking at the record's flag, and the record it has disabled still answers to the
  subscriber.  A subscriber 7 is registered through the facade on thread 0 with a callback
  that calls \<open>resetOnReceive(7)\<close> twice; one \<open>send\<close> on thread 0 runs it.  In a release
  build the count is \<open>-1\<close> when \<open>send\<close> returns and after the pump has run the queued
  disconnects; a debug build fails the assertion of \<open>disableReceiver\<close>.
\<close>

theorem disableReceiver_twice_negative:
  "map_sum id (\<lambda>d. m_enabledReceiversCount' (mainCh d))
     (Channel_steps Release
        [ChOnReceive 0 (Some 7) (Handler 1 [7, 7]), ChSend 0 [1]]
        (new_Channel 16 2048)) = Inr (- 1)
   \<and> map_sum id (\<lambda>d. m_enabledReceiversCount' (mainCh d))
     (Channel_steps Release
        [ChOnReceive 0 (Some 7) (Handler 1 [7, 7]), ChSend 0 [1], ChProcessDisconnect 0 0 0]
        (new_Channel 16 2048)) = Inr (- 1)
   \<and> Channel_steps Debug
        [ChOnReceive 0 (Some 7) (Handler 1 [7, 7]), ChSend 0 [1]]
        (new_Channel 16 2048) = Inl AssertCountNegative"
  by code_simp

text \<open>
  From then on the channel is one short: the next subscriber brings the count to 0, so
  \<open>isConnected\<close> is false and \<open>send\<close> returns without calling it.
\<close>

lemma count_short_after_double_disable:
  "map_sum id (\<lambda>d. (m_enabledReceiversCount' (mainCh d), Channel_isConnected d,
                     map enabled' (table_of 0 (mainCh d)), calls' (mainCh d)))
     (Channel_steps Release
        [ChOnReceive 0 (Some 7) (Handler 1 [7, 7]), ChSend 0 [1], ChProcessDisconnect 0 0 0,
         ChOnReceive 0 (Some 8) (Handler 2 []), ChSend 0 [2]]
        (new_Channel 16 2048))
   = Inr (0, False, [True], [(0, 0, Handler 1 [7, 7], [1])])"
  by code_simp

text \<open>
  The current \<open>ChannelImpl\<close> does keep the count from going negative.  \<open>removeReceiver\<close>
  reports a decrement only for a record it found enabled, and it unlinks the record it
  disables, so in every state reached from a new channel the count is at least the number
  of enabled records.
\<close>

lemma enabledReceiversCount_nonneg:
  assumes "steps b ops (new_ChannelImpl n cap) = Inr c"
  shows "int (enabled_records (heap c)) \<le> m_enabledReceiversCount c" "0 \<le> m_enabledReceiversCount c"
proof -
  have "int (enabled_records (heap (new_ChannelImpl n cap))) \<le> m_enabledReceiversCount (new_ChannelImpl n cap)"
    by (simp add: new_ChannelImpl_def enabled_records_def)
  with stable_count_covers show "int (enabled_records (heap c)) \<le> m_enabledReceiversCount c"
    using assms by (rule stable_steps)
  then show "0 \<le> m_enabledReceiversCount c" by simp
qed

subsection \<open>A promise does not keep its resolution\<close>




end
